theory Spec2Isabelle
  imports Main "HOL-Library.AList"
begin

section \<open>Values\<close>

text \<open>
  The values that user code hands to the handler (results of callbacks, thrown values,
  arguments of \<open>resolve\<close> and \<open>reject\<close>): primitives, error objects and other objects.
  Numbers are integers, an object is known by an identity, and both kinds of object carry
  the \<open>taskRef\<close> property that \<open>EXECUTE_RESULT\<close> assigns (the address of a task
  reference). Functions and symbols as values are outside the model.
\<close>

type_synonym addr = nat

datatype jsval =
    JUndefined
  | JNull
  | JBool bool
  | JNum int
  | JStr string
  | JError string "addr option"
  | JObject nat "addr option"

datatype js_type = TUndefined | TObject | TBoolean | TNumber | TString

fun typeof :: "jsval \<Rightarrow> js_type" where
  "typeof JUndefined = TUndefined"
| "typeof JNull = TObject"
| "typeof (JBool b) = TBoolean"
| "typeof (JNum n) = TNumber"
| "typeof (JStr s) = TString"
| "typeof (JError m t) = TObject"
| "typeof (JObject n t) = TObject"

fun truthy :: "jsval \<Rightarrow> bool" where
  "truthy JUndefined = False"
| "truthy JNull = False"
| "truthy (JBool b) = b"
| "truthy (JNum n) = (n \<noteq> 0)"
| "truthy (JStr s) = (s \<noteq> [])"
| "truthy (JError m t) = True"
| "truthy (JObject n t) = True"

fun digits :: "nat \<Rightarrow> string" where
  "digits n =
     (if n < 10 then [''0123456789'' ! n]
      else digits (n div 10) @ [''0123456789'' ! (n mod 10)])"

declare digits.simps [simp del]

fun ToString :: "jsval \<Rightarrow> string" where
  "ToString JUndefined = ''undefined''"
| "ToString JNull = ''null''"
| "ToString (JBool b) = (if b then ''true'' else ''false'')"
| "ToString (JNum n) = (if n < 0 then ''-'' @ digits (nat (- n)) else digits (nat n))"
| "ToString (JStr s) = s"
| "ToString (JError m t) = (if m = [] then ''Error'' else ''Error: '' @ m)"
| "ToString (JObject n t) = ''[object Object]''"

text \<open>\<open>new Error(err)\<close>: the message is the string conversion of the argument, and
  is left empty when the argument is \<open>undefined\<close>.\<close>

definition new_Error :: "jsval \<Rightarrow> jsval" where
  "new_Error err = (if err = JUndefined then JError [] None else JError (ToString err) None)"

text \<open>The assignment \<open>error.taskRef = ref\<close>; it is only reached for objects.\<close>

fun set_taskRef :: "addr \<Rightarrow> jsval \<Rightarrow> jsval" where
  "set_taskRef a (JError m t) = JError m (Some a)"
| "set_taskRef a (JObject n t) = JObject n (Some a)"
| "set_taskRef a v = v"

text \<open>
  Modelled from the spec: the module \<open>./constants\<close> is not among the sources. The
  glossary calls \<open>TASK_CANCELLED\<close>, as a value, the cancellation sentinel, "the
  distinguished result value indicating a task ended via cancellation rather than normal
  completion". What \<open>lastResult\<close> holds is therefore either a value produced by user
  code or the sentinel, which differs from all of them.
\<close>

datatype stored = Value jsval | TASK_CANCELLED_value

text \<open>A call of a user function returns a value or throws one.\<close>

datatype completion = Returns jsval | Throws jsval

type_synonym fn = "jsval list \<Rightarrow> completion"

section \<open>Promises\<close>

text \<open>
  A promise is pending, with the reactions waiting for it, or settled. Every fulfilment in
  the source is with a task reference (\<open>promiseActions[0](ref)\<close>, \<open>return ref\<close>);
  rejections carry a value. The reactions are the continuations of the two async
  functions of a reference, suspended at \<open>await promise\<close>, and the adoption of the inner
  promise by the promise of \<open>promisedResult\<close> at \<open>return promise\<close>.
\<close>

type_synonym paddr = nat

datatype settlement = Resolved addr | Rejected jsval

datatype cont =
    PromisedResult addr paddr
  | Adopt paddr
  | PromiseIterator nat

datatype pstate = Pending "cont list" | Settled settlement

section \<open>Task references\<close>

datatype task_type = After | Defer | Every | Job

record status =
  complete :: bool
  error :: bool
  cancelled :: bool

text \<open>
  A job object, as \<open>getJob(...args)\<close> returns it: what \<open>start\<close> does with the
  reference it receives (calls of \<open>resolve\<close>, \<open>reject\<close> and \<open>cancel\<close> on it, in
  order), and the \<open>cancelled\<close> entry point, \<open>None\<close> when it is not a function and
  otherwise the value it returns.
\<close>

datatype ref_call = Call_resolve jsval | Call_reject jsval | Call_cancel

record job_obj =
  start :: "ref_call list"
  job_cancelled :: "jsval option"

text \<open>The reference object with the variables its closures share.\<close>

record 'id task_ref =
  ref_id :: 'id
  ref_type :: task_type
  status :: status
  lastResult :: stored
  promise :: "paddr option"
  promiseActions :: "paddr option"
  job :: "job_obj option"

section \<open>The handler and its host\<close>

datatype canceller =
    NOOP
  | ClearTimeout nat
  | ClearInterval nat
  | CancelDefer nat
  | ClearIntervalCancelDefer nat nat

datatype timer_kind = Timeout | Interval

record timer =
  t_kind :: timer_kind
  t_ref :: addr
  t_fn :: "fn option"
  t_args :: "jsval list"

record defer_entry =
  d_ref :: addr
  d_fn :: "fn option"
  d_args :: "jsval list"

datatype gen_state = SuspendedStart | AwaitingPromise | SuspendedYield | Completed

datatype js_error =
    Error_promise_iterative task_type
  | Error_promises_non_iterative task_type

text \<open>
  The state of one handler with everything it reaches: the references it created, the
  promises, the registry \<open>refs\<close> (a \<open>Map\<close>, kept in insertion order), the timers of the
  host, the deferral queue, the running iterators, the microtask queue and the console.
\<close>

record 'id world =
  heap :: "'id task_ref list"
  promise_store :: "paddr \<Rightarrow> pstate"
  next_promise :: paddr
  refs :: "('id \<times> addr \<times> canceller) list"
  timers :: "nat \<Rightarrow> timer option"
  next_timer :: nat
  queue :: "(nat \<times> defer_entry) list"
  next_defer :: nat
  gens :: "nat \<Rightarrow> (addr \<times> gen_state) option"
  next_gen :: nat
  microtasks :: "(cont \<times> settlement) list"
  console :: "'id list"
  production :: bool

text \<open>\<open>createTaskHandler()\<close>: nothing is registered, armed or allocated. The
  argument says whether \<open>process.env.NODE_ENV\<close> is \<open>production\<close>.\<close>

definition createTaskHandler :: "bool \<Rightarrow> 'id world" where
  "createTaskHandler is_production =
     \<lparr> heap = [],
       promise_store = (\<lambda>p. Pending []),
       next_promise = 0,
       refs = [],
       timers = (\<lambda>t. None),
       next_timer = 0,
       queue = [],
       next_defer = 0,
       gens = (\<lambda>g. None),
       next_gen = 0,
       microtasks = [],
       console = [],
       production = is_production \<rparr>"

subsection \<open>Promise primitives\<close>

definition new_Promise :: "'id world \<Rightarrow> paddr \<times> 'id world" where
  "new_Promise w =
     (next_promise w,
      w\<lparr> promise_store := (promise_store w)(next_promise w := Pending []),
         next_promise := Suc (next_promise w) \<rparr>)"

text \<open>The resolve and reject functions of a promise: the first call settles it and
  queues its reactions, every later call does nothing.\<close>

definition settle :: "paddr \<Rightarrow> settlement \<Rightarrow> 'id world \<Rightarrow> 'id world" where
  "settle p s w =
     (case promise_store w p of
        Pending ks \<Rightarrow>
          w\<lparr> promise_store := (promise_store w)(p := Settled s),
             microtasks := microtasks w @ map (\<lambda>k. (k, s)) ks \<rparr>
      | Settled s' \<Rightarrow> w)"

text \<open>Waiting for a promise: the reaction is kept while the promise is pending and
  queued at once when it is settled.\<close>

definition subscribe :: "paddr \<Rightarrow> cont \<Rightarrow> 'id world \<Rightarrow> 'id world" where
  "subscribe p k w =
     (case promise_store w p of
        Pending ks \<Rightarrow> w\<lparr> promise_store := (promise_store w)(p := Pending (ks @ [k])) \<rparr>
      | Settled s \<Rightarrow> w\<lparr> microtasks := microtasks w @ [(k, s)] \<rparr>)"

subsection \<open>The members of a reference\<close>

definition update_ref :: "addr \<Rightarrow> ('id task_ref \<Rightarrow> 'id task_ref) \<Rightarrow> 'id world \<Rightarrow> 'id world" where
  "update_ref a f w = w\<lparr> heap := (heap w)[a := f (heap w ! a)] \<rparr>"

definition getNextPromise :: "addr \<Rightarrow> 'id world \<Rightarrow> paddr \<times> 'id world" where
  "getNextPromise a w =
     (case promise (heap w ! a) of
        Some p \<Rightarrow> (p, w)
      | None \<Rightarrow>
          (let (p, w1) = new_Promise w
           in (p, update_ref a (\<lambda>r. r\<lparr> promiseActions := Some p, promise := Some p \<rparr>) w1)))"

text \<open>The getter \<open>result\<close>.\<close>

definition result :: "'id task_ref \<Rightarrow> stored" where
  "result r = (if complete (status r) then lastResult r else Value JUndefined)"

text \<open>The \<open>finally\<close> blocks of both async functions.\<close>

definition finally_block :: "addr \<Rightarrow> 'id world \<Rightarrow> 'id world" where
  "finally_block a w = update_ref a (\<lambda>r. r\<lparr> promiseActions := None, promise := None \<rparr>) w"

text \<open>The getter \<open>promise\<close>: it throws for an iterative task and returns the async
  function \<open>promisedResult\<close> otherwise.\<close>

definition get_promise :: "'id task_ref \<Rightarrow> js_error + unit" where
  "get_promise r =
     (if ref_type r = Every then Inl (Error_promise_iterative (ref_type r)) else Inr ())"

text \<open>
  \<open>promisedResult()\<close> up to its first suspension. The call has a promise of its own,
  which is what the caller receives. At \<open>return promise\<close> that promise adopts the inner
  one; at \<open>return ref\<close> it is fulfilled after the \<open>finally\<close> block; otherwise the
  function is suspended at \<open>await promise\<close>.
\<close>

definition promisedResult :: "addr \<Rightarrow> 'id world \<Rightarrow> paddr \<times> 'id world" where
  "promisedResult a w =
     (let (outer, w0) = new_Promise w
      in case promise (heap w0 ! a) of
           Some p \<Rightarrow> (outer, subscribe p (Adopt outer) w0)
         | None \<Rightarrow>
             if complete (status (heap w0 ! a))
             then (outer, settle outer (Resolved a) (finally_block a w0))
             else (let (p, w1) = getNextPromise a w0
                   in (outer, subscribe p (PromisedResult a outer) w1)))"

text \<open>\<open>promisedResult\<close> from \<open>await promise\<close> on: \<open>return ref\<close> when the promise
  was fulfilled, the \<open>catch\<close> block when it was rejected, then \<open>finally\<close>.\<close>

definition promisedResult_resume :: "addr \<Rightarrow> paddr \<Rightarrow> settlement \<Rightarrow> 'id world \<Rightarrow> 'id world" where
  "promisedResult_resume a outer s w =
     (case s of
        Resolved v \<Rightarrow> settle outer (Resolved a) (finally_block a w)
      | Rejected e \<Rightarrow>
          settle outer (Rejected e)
            (finally_block a
               (update_ref a
                  (\<lambda>r. r\<lparr> status := (status r)\<lparr> error := True \<rparr>, lastResult := Value e \<rparr>) w)))"

text \<open>\<open>ref.promise()\<close>: the getter, then the call of what it returned.\<close>

definition call_promise :: "addr \<Rightarrow> 'id world \<Rightarrow> (js_error + paddr) \<times> 'id world" where
  "call_promise a w =
     (case get_promise (heap w ! a) of
        Inl e \<Rightarrow> (Inl e, w)
      | Inr u \<Rightarrow> (let (outer, w1) = promisedResult a w in (Inr outer, w1)))"

text \<open>The getter \<open>promises\<close>: it throws unless the task is iterative.\<close>

definition get_promises :: "'id task_ref \<Rightarrow> js_error + unit" where
  "get_promises r =
     (if ref_type r \<noteq> Every then Inl (Error_promises_non_iterative (ref_type r)) else Inr ())"

text \<open>\<open>ref.promises()\<close>: calling the async generator function creates an iterator and
  runs nothing of its body.\<close>

definition call_promises :: "addr \<Rightarrow> 'id world \<Rightarrow> (js_error + nat) \<times> 'id world" where
  "call_promises a w =
     (case get_promises (heap w ! a) of
        Inl e \<Rightarrow> (Inl e, w)
      | Inr u \<Rightarrow>
          (Inr (next_gen w),
           w\<lparr> gens := (gens w)(next_gen w \<mapsto> (a, SuspendedStart)),
              next_gen := Suc (next_gen w) \<rparr>))"

text \<open>One pass of the \<open>while (true)\<close> loop of \<open>promiseIterator\<close>, from its head to
  \<open>await promise\<close> or to the \<open>break\<close>.\<close>

definition promiseIterator_loop :: "nat \<Rightarrow> addr \<Rightarrow> 'id world \<Rightarrow> 'id world" where
  "promiseIterator_loop g a w =
     (if complete (status (heap w ! a))
      then (finally_block a w)\<lparr> gens := (gens w)(g \<mapsto> (a, Completed)) \<rparr>
      else (let (p, w1) = (case promise (heap w ! a) of
                             None \<Rightarrow> getNextPromise a w
                           | Some p \<Rightarrow> (p, w))
            in subscribe p (PromiseIterator g)
                 (w1\<lparr> gens := (gens w1)(g \<mapsto> (a, AwaitingPromise)) \<rparr>)))"

text \<open>The consumer asks for the next element: the body starts, or goes on after
  \<open>yield ref\<close> with the two assignments that end the loop body.\<close>

definition promiseIterator_next :: "nat \<Rightarrow> 'id world \<Rightarrow> 'id world" where
  "promiseIterator_next g w =
     (case gens w g of
        Some (a, SuspendedStart) \<Rightarrow> promiseIterator_loop g a w
      | Some (a, SuspendedYield) \<Rightarrow> promiseIterator_loop g a (finally_block a w)
      | _ \<Rightarrow> w)"

text \<open>The awaited promise is settled: \<open>yield ref\<close> when fulfilled; when rejected the
  exception leaves the generator through \<open>finally\<close>.\<close>

definition promiseIterator_resume :: "nat \<Rightarrow> settlement \<Rightarrow> 'id world \<Rightarrow> 'id world" where
  "promiseIterator_resume g s w =
     (case gens w g of
        Some (a, AwaitingPromise) \<Rightarrow>
          (case s of
             Resolved v \<Rightarrow> w\<lparr> gens := (gens w)(g \<mapsto> (a, SuspendedYield)) \<rparr>
           | Rejected e \<Rightarrow> (finally_block a w)\<lparr> gens := (gens w)(g \<mapsto> (a, Completed)) \<rparr>)
      | _ \<Rightarrow> w)"

text \<open>The consumer leaves the iteration (\<open>return()\<close>): at \<open>yield\<close> the \<open>finally\<close>
  block runs; before the first \<open>next()\<close> the body never ran.\<close>

definition promiseIterator_return :: "nat \<Rightarrow> 'id world \<Rightarrow> 'id world" where
  "promiseIterator_return g w =
     (case gens w g of
        Some (a, SuspendedYield) \<Rightarrow> (finally_block a w)\<lparr> gens := (gens w)(g \<mapsto> (a, Completed)) \<rparr>
      | Some (a, SuspendedStart) \<Rightarrow> w\<lparr> gens := (gens w)(g \<mapsto> (a, Completed)) \<rparr>
      | _ \<Rightarrow> w)"

text \<open>The method \<open>[TASK_CANCELLED](promises)\<close>; the array it pushes to is passed in and
  returned.\<close>

definition TASK_CANCELLED :: "addr \<Rightarrow> jsval list \<Rightarrow> 'id world \<Rightarrow> jsval list \<times> 'id world" where
  "TASK_CANCELLED a promises w =
     (if complete (status (heap w ! a)) then (promises, w)
      else
        (let w1 = update_ref a
                    (\<lambda>r. r\<lparr> lastResult := TASK_CANCELLED_value,
                           status := (status r)\<lparr> cancelled := True, complete := True \<rparr> \<rparr>) w;
             w2 = (case promiseActions (heap w1 ! a) of
                     Some p \<Rightarrow> settle p (Resolved a) w1
                   | None \<Rightarrow> w1)
         in case job (heap w2 ! a) of
              None \<Rightarrow> (promises, w2)
            | Some j \<Rightarrow>
                (case job_cancelled j of
                   Some v \<Rightarrow> (promises @ [v], w2)
                 | None \<Rightarrow>
                     if \<not> production w2
                     then (promises, w2\<lparr> console := console w2 @ [ref_id (heap w2 ! a)] \<rparr>)
                     else (promises, w2))))"

text \<open>The method \<open>[EXECUTE_RESULT](err, result)\<close>.\<close>

definition EXECUTE_RESULT :: "addr \<Rightarrow> jsval \<Rightarrow> jsval \<Rightarrow> 'id world \<Rightarrow> 'id world" where
  "EXECUTE_RESULT a err res w =
     (if \<not> complete (status (heap w ! a))
      then
        (let w1 = update_ref a (\<lambda>r. r\<lparr> lastResult := Value res \<rparr>) w;
             w2 = (if ref_type (heap w1 ! a) \<noteq> Every
                   then update_ref a (\<lambda>r. r\<lparr> status := (status r)\<lparr> complete := True \<rparr> \<rparr>) w1
                   else w1)
         in case promiseActions (heap w2 ! a) of
              Some p \<Rightarrow>
                if truthy err
                then settle p
                       (Rejected (set_taskRef a (if typeof err = TObject then err else new_Error err)))
                       w2
                else settle p (Resolved a) w2
            | None \<Rightarrow> w2)
      else w)"

definition resolve :: "addr \<Rightarrow> jsval \<Rightarrow> 'id world \<Rightarrow> 'id world" where
  "resolve a res w = EXECUTE_RESULT a JUndefined res w"

definition reject :: "addr \<Rightarrow> jsval \<Rightarrow> 'id world \<Rightarrow> 'id world" where
  "reject a err w = EXECUTE_RESULT a err JUndefined w"

subsection \<open>The handler\<close>

fun run_canceller :: "canceller \<Rightarrow> 'id world \<Rightarrow> 'id world" where
  "run_canceller NOOP w = w"
| "run_canceller (ClearTimeout t) w = w\<lparr> timers := (timers w)(t := None) \<rparr>"
| "run_canceller (ClearInterval t) w = w\<lparr> timers := (timers w)(t := None) \<rparr>"
| "run_canceller (CancelDefer q) w = w\<lparr> queue := filter (\<lambda>e. fst e \<noteq> q) (queue w) \<rparr>"
| "run_canceller (ClearIntervalCancelDefer t q) w =
     w\<lparr> timers := (timers w)(t := None), queue := filter (\<lambda>e. fst e \<noteq> q) (queue w) \<rparr>"

definition cancelID :: "'id \<Rightarrow> jsval list \<Rightarrow> 'id world \<Rightarrow> jsval list \<times> 'id world" where
  "cancelID i promises w =
     (case map_of (refs w) i of
        None \<Rightarrow> (promises, w)
      | Some (a, canceller) \<Rightarrow>
          (let w1 = run_canceller canceller w;
               w2 = w1\<lparr> refs := AList.delete i (refs w1) \<rparr>
           in TASK_CANCELLED a promises w2))"

text \<open>\<open>handler.cancel(...ids)\<close>; what is returned stands for the joiner, the array
  that its \<open>promise()\<close> hands to \<open>Promise.all\<close>.\<close>

definition handler_cancel :: "'id list \<Rightarrow> 'id world \<Rightarrow> jsval list \<times> 'id world" where
  "handler_cancel ids w = fold (\<lambda>i (promises, w'). cancelID i promises w') ids ([], w)"

definition clear :: "'id world \<Rightarrow> jsval list \<times> 'id world" where
  "clear w = handler_cancel (map fst (refs w)) w"

definition size_handler :: "'id world \<Rightarrow> nat" where
  "size_handler w = length (refs w)"

text \<open>\<open>ref.cancel()\<close>.\<close>

definition cancel :: "addr \<Rightarrow> 'id world \<Rightarrow> 'id world" where
  "cancel a w =
     (let w1 = update_ref a
                 (\<lambda>r. r\<lparr> lastResult := TASK_CANCELLED_value,
                        status := (status r)\<lparr> cancelled := True \<rparr> \<rparr>) w
      in snd (handler_cancel [ref_id (heap w1 ! a)] w1))"

definition execute :: "addr \<Rightarrow> fn option \<Rightarrow> jsval list \<Rightarrow> 'id world \<Rightarrow> 'id world" where
  "execute a f args w =
     (case (case f of Some g \<Rightarrow> g args | None \<Rightarrow> Returns JUndefined) of
        Returns res \<Rightarrow> EXECUTE_RESULT a JUndefined res w
      | Throws e \<Rightarrow> EXECUTE_RESULT a e JUndefined w)"

fun run_call :: "addr \<Rightarrow> ref_call \<Rightarrow> 'id world \<Rightarrow> 'id world" where
  "run_call a (Call_resolve v) w = resolve a v w"
| "run_call a (Call_reject e) w = reject a e w"
| "run_call a Call_cancel w = cancel a w"

text \<open>\<open>createTaskRef\<close>. For a job the reference gets its job object, a first call of
  \<open>promise()\<close> (the \<open>catch(NOOP)\<close> on it changes nothing here) and the run of
  \<open>job.start\<close>.\<close>

definition createTaskRef ::
  "task_type \<Rightarrow> 'id \<Rightarrow> ((jsval list \<Rightarrow> job_obj) \<times> jsval list) option \<Rightarrow> 'id world
     \<Rightarrow> addr \<times> 'id world" where
  "createTaskRef ty i jobDescriptor w =
     (let w1 = snd (handler_cancel [i] w);
          a = length (heap w1);
          w2 = w1\<lparr> heap := heap w1 @
                  [\<lparr> ref_id = i, ref_type = ty,
                     status = \<lparr> complete = False, error = False, cancelled = False \<rparr>,
                     lastResult = Value JUndefined, promise = None, promiseActions = None,
                     job = None \<rparr>] \<rparr>
      in case jobDescriptor of
           None \<Rightarrow> (a, w2)
         | Some (getJob, args) \<Rightarrow>
             (let w3 = update_ref a (\<lambda>r. r\<lparr> job := Some (getJob args) \<rparr>) w2;
                  w4 = snd (call_promise a w3);
                  w5 = fold (run_call a) (start (getJob args)) w4
              in (a, w5)))"

definition setTimer :: "timer_kind \<Rightarrow> addr \<Rightarrow> fn option \<Rightarrow> jsval list \<Rightarrow> 'id world \<Rightarrow> nat \<times> 'id world" where
  "setTimer k a f args w =
     (next_timer w,
      w\<lparr> timers := (timers w)(next_timer w \<mapsto> \<lparr> t_kind = k, t_ref = a, t_fn = f, t_args = args \<rparr>),
         next_timer := Suc (next_timer w) \<rparr>)"

text \<open>
  Modelled from the spec: the module \<open>./defer\<close> is not among the sources. "add(key,
  callback) -> cancelFunction. Contract: schedules callback to run once, batched with
  other registrations made in the same processing cycle; returns a function that, if
  invoked before the flush, removes this registration with no effect". An entry holds the
  callback \<open>() => execute(ref, fn, args)\<close>; the number returned names the entry for
  its cancel function.
\<close>

definition queue_add :: "addr \<Rightarrow> fn option \<Rightarrow> jsval list \<Rightarrow> 'id world \<Rightarrow> nat \<times> 'id world" where
  "queue_add a f args w =
     (next_defer w,
      w\<lparr> queue := queue w @ [(next_defer w, \<lparr> d_ref = a, d_fn = f, d_args = args \<rparr>)],
         next_defer := Suc (next_defer w) \<rparr>)"

definition after :: "'id \<Rightarrow> nat \<Rightarrow> fn option \<Rightarrow> jsval list \<Rightarrow> 'id world \<Rightarrow> addr \<times> 'id world" where
  "after i delay f args w =
     (let (a, w1) = createTaskRef After i None w;
          (timeoutID, w2) = setTimer Timeout a f args w1
      in (a, w2\<lparr> refs := AList.update i (a, ClearTimeout timeoutID) (refs w2) \<rparr>))"

definition defer_task :: "'id \<Rightarrow> fn option \<Rightarrow> jsval list \<Rightarrow> 'id world \<Rightarrow> addr \<times> 'id world" where
  "defer_task i f args w =
     (let (a, w1) = createTaskRef Defer i None w;
          (cancelDefer, w2) = queue_add a f args w1
      in (a, w2\<lparr> refs := AList.update i (a, CancelDefer cancelDefer) (refs w2) \<rparr>))"

definition every :: "'id \<Rightarrow> nat \<Rightarrow> fn option \<Rightarrow> jsval list \<Rightarrow> 'id world \<Rightarrow> addr \<times> 'id world" where
  "every i interval f args w =
     (let (a, w1) = createTaskRef Every i None w;
          (timerID, w2) = setTimer Interval a f args w1
      in (a, w2\<lparr> refs := AList.update i (a, ClearInterval timerID) (refs w2) \<rparr>))"

definition everyNow :: "'id \<Rightarrow> nat \<Rightarrow> fn option \<Rightarrow> jsval list \<Rightarrow> 'id world \<Rightarrow> addr \<times> 'id world" where
  "everyNow i interval f args w =
     (let (a, w1) = createTaskRef Every i None w;
          (timerID, w2) = setTimer Interval a f args w1;
          (cancelDefer, w3) = queue_add a f args w2
      in (a, w3\<lparr> refs := AList.update i (a, ClearIntervalCancelDefer timerID cancelDefer) (refs w3) \<rparr>))"

definition job_task ::
  "'id \<Rightarrow> (jsval list \<Rightarrow> job_obj) \<Rightarrow> jsval list \<Rightarrow> 'id world \<Rightarrow> addr \<times> 'id world" where
  "job_task i getJob args w =
     (let (a, w1) = createTaskRef Job i (Some (getJob, args)) w
      in (a, w1\<lparr> refs := AList.update i (a, NOOP) (refs w1) \<rparr>))"

subsection \<open>The host: timers, the deferral queue, microtasks\<close>

text \<open>A timer fires: the host calls \<open>execute(ref, fn, args)\<close>; a timeout is spent by
  it, an interval stays armed.\<close>

definition fire_timer :: "nat \<Rightarrow> 'id world \<Rightarrow> 'id world" where
  "fire_timer t w =
     (case timers w t of
        None \<Rightarrow> w
      | Some e \<Rightarrow>
          execute (t_ref e) (t_fn e) (t_args e)
            (if t_kind e = Timeout then w\<lparr> timers := (timers w)(t := None) \<rparr> else w))"

text \<open>Modelled from the spec: the flush of the deferral queue "batches same-tick work":
  every registration is removed and its callback runs once, in the order of
  registration.\<close>

definition flush :: "'id world \<Rightarrow> 'id world" where
  "flush w =
     fold (\<lambda>e w'. execute (d_ref (snd e)) (d_fn (snd e)) (d_args (snd e)) w')
       (queue w) (w\<lparr> queue := [] \<rparr>)"

fun run_cont :: "cont \<Rightarrow> settlement \<Rightarrow> 'id world \<Rightarrow> 'id world" where
  "run_cont (PromisedResult a outer) s w = promisedResult_resume a outer s w"
| "run_cont (Adopt outer) s w = settle outer s w"
| "run_cont (PromiseIterator g) s w = promiseIterator_resume g s w"

text \<open>The first job of the microtask queue runs.\<close>

definition microtask :: "'id world \<Rightarrow> 'id world" where
  "microtask w =
     (case microtasks w of
        [] \<Rightarrow> w
      | (k, s) # ms \<Rightarrow> run_cont k s (w\<lparr> microtasks := ms \<rparr>))"

section \<open>Runs of the program\<close>

text \<open>
  What can happen to a handler: a call of one of its operations or of a member of a
  reference that user code holds, a step of an iterator, a timer firing, a flush of the
  deferral queue, a microtask. User callbacks and \<open>job.start\<close> do not call back into
  the handler (apart from the calls of \<open>start\<close> on its own reference). Time is not
  part of the state: any armed timer may fire next, and the events may come in any order,
  which covers every order the event loop of the host can produce.
\<close>

datatype 'id event =
    Ev_after 'id nat "fn option" "jsval list"
  | Ev_defer 'id "fn option" "jsval list"
  | Ev_every 'id nat "fn option" "jsval list"
  | Ev_everyNow 'id nat "fn option" "jsval list"
  | Ev_job 'id "jsval list \<Rightarrow> job_obj" "jsval list"
  | Ev_cancel "'id list"
  | Ev_clear
  | Ev_resolve addr jsval
  | Ev_reject addr jsval
  | Ev_ref_cancel addr
  | Ev_promise addr
  | Ev_promises addr
  | Ev_next nat
  | Ev_return nat
  | Ev_timer nat
  | Ev_flush
  | Ev_microtask

fun run_event :: "'id event \<Rightarrow> 'id world \<Rightarrow> 'id world" where
  "run_event (Ev_after i delay f args) w = snd (after i delay f args w)"
| "run_event (Ev_defer i f args) w = snd (defer_task i f args w)"
| "run_event (Ev_every i interval f args) w = snd (every i interval f args w)"
| "run_event (Ev_everyNow i interval f args) w = snd (everyNow i interval f args w)"
| "run_event (Ev_job i getJob args) w = snd (job_task i getJob args w)"
| "run_event (Ev_cancel ids) w = snd (handler_cancel ids w)"
| "run_event Ev_clear w = snd (clear w)"
| "run_event (Ev_resolve a v) w = resolve a v w"
| "run_event (Ev_reject a e) w = reject a e w"
| "run_event (Ev_ref_cancel a) w = cancel a w"
| "run_event (Ev_promise a) w = snd (call_promise a w)"
| "run_event (Ev_promises a) w = snd (call_promises a w)"
| "run_event (Ev_next g) w = promiseIterator_next g w"
| "run_event (Ev_return g) w = promiseIterator_return g w"
| "run_event (Ev_timer t) w = fire_timer t w"
| "run_event Ev_flush w = flush w"
| "run_event Ev_microtask w = microtask w"

text \<open>User code only holds references that were created.\<close>

fun enabled :: "'id event \<Rightarrow> 'id world \<Rightarrow> bool" where
  "enabled (Ev_resolve a v) w = (a < length (heap w))"
| "enabled (Ev_reject a e) w = (a < length (heap w))"
| "enabled (Ev_ref_cancel a) w = (a < length (heap w))"
| "enabled (Ev_promise a) w = (a < length (heap w))"
| "enabled (Ev_promises a) w = (a < length (heap w))"
| "enabled e w = True"

inductive reachable :: "'id world \<Rightarrow> bool" where
  init: "reachable (createTaskHandler is_production)"
| step: "reachable w \<Longrightarrow> enabled e w \<Longrightarrow> reachable (run_event e w)"

text \<open>The id of a creation event; the events that go through the cancel path of the
  handler (\<open>cancelID\<close>).\<close>

fun created_id :: "'id event \<Rightarrow> 'id option" where
  "created_id (Ev_after i delay f args) = Some i"
| "created_id (Ev_defer i f args) = Some i"
| "created_id (Ev_every i interval f args) = Some i"
| "created_id (Ev_everyNow i interval f args) = Some i"
| "created_id (Ev_job i getJob args) = Some i"
| "created_id e = None"

fun cancelling :: "'id event \<Rightarrow> bool" where
  "cancelling (Ev_cancel ids) = True"
| "cancelling Ev_clear = True"
| "cancelling (Ev_ref_cancel a) = True"
| "cancelling e = (created_id e \<noteq> None)"

definition pending :: "pstate \<Rightarrow> bool" where
  "pending s = (case s of Pending ks \<Rightarrow> True | Settled v \<Rightarrow> False)"


text \<open>The tokens a canceller clears.\<close>

fun cleared_timers :: "canceller \<Rightarrow> nat set" where
  "cleared_timers (ClearTimeout t) = {t}"
| "cleared_timers (ClearInterval t) = {t}"
| "cleared_timers (ClearIntervalCancelDefer t q) = {t}"
| "cleared_timers c = {}"

fun cleared_defers :: "canceller \<Rightarrow> nat set" where
  "cleared_defers (CancelDefer q) = {q}"
| "cleared_defers (ClearIntervalCancelDefer t q) = {q}"
| "cleared_defers c = {}"

text \<open>
  The invariant of the registry, for all references but those in \<open>X\<close> (a reference
  under construction): what is armed belongs to the reference registered under its id and
  is cleared by the canceller stored with it; a reference that is not complete is the
  one registered under its id; the registry holds references under their own ids.
\<close>

definition reg_inv :: "addr set \<Rightarrow> 'id world \<Rightarrow> bool" where
  "reg_inv X w \<longleftrightarrow>
     (\<forall>t e. timers w t = Some e \<longrightarrow>
        (\<exists>c. map_of (refs w) (ref_id (heap w ! t_ref e)) = Some (t_ref e, c) \<and> t \<in> cleared_timers c)) \<and>
     (\<forall>e \<in> set (queue w).
        (\<exists>c. map_of (refs w) (ref_id (heap w ! d_ref (snd e))) = Some (d_ref (snd e), c) \<and>
             fst e \<in> cleared_defers c)) \<and>
     (\<forall>a < length (heap w). a \<notin> X \<longrightarrow> \<not> complete (status (heap w ! a)) \<longrightarrow>
        (\<exists>c. map_of (refs w) (ref_id (heap w ! a)) = Some (a, c))) \<and>
     (\<forall>i a c. map_of (refs w) i = Some (a, c) \<longrightarrow> a < length (heap w) \<and> ref_id (heap w ! a) = i)"

text \<open>The invariant of the promise variables of the references: \<open>promise\<close> and
  \<open>promiseActions\<close> belong to the same promise, which was created, and is settled once
  the reference is complete.\<close>

definition prom_inv :: "'id world \<Rightarrow> bool" where
  "prom_inv w \<longleftrightarrow>
     (\<forall>a < length (heap w).
        promiseActions (heap w ! a) = promise (heap w ! a) \<and>
        (\<forall>p. promise (heap w ! a) = Some p \<longrightarrow>
           p < next_promise w \<and>
           (complete (status (heap w ! a)) \<longrightarrow> \<not> pending (promise_store w p))))"

text \<open>
  The invariant of the continuations: a continuation that waits for a promise, or is
  queued as a microtask, belongs to a reference, a promise and an iterator that were
  created; an iterator belongs to a reference that was created.
\<close>

fun cont_ok :: "nat \<Rightarrow> nat \<Rightarrow> (nat \<Rightarrow> (addr \<times> gen_state) option) \<Rightarrow> cont \<Rightarrow> bool" where
  "cont_ok n np gs (PromisedResult b outer) = (b < n \<and> outer < np)"
| "cont_ok n np gs (Adopt outer) = (outer < np)"
| "cont_ok n np gs (PromiseIterator g) = (gs g \<noteq> None)"

definition cont_inv :: "'id world \<Rightarrow> bool" where
  "cont_inv w \<longleftrightarrow>
     (\<forall>g b st. gens w g = Some (b, st) \<longrightarrow> g < next_gen w \<and> b < length (heap w)) \<and>
     (\<forall>k s. (k, s) \<in> set (microtasks w) \<longrightarrow>
        cont_ok (length (heap w)) (next_promise w) (gens w) k) \<and>
     (\<forall>p ks k. promise_store w p = Pending ks \<longrightarrow> k \<in> set ks \<longrightarrow>
        cont_ok (length (heap w)) (next_promise w) (gens w) k)"

text \<open>
  A continuation is foreign to the reference \<open>a\<close> and the promises in \<open>S\<close> when it is
  not of that reference, does not settle one of those promises and, if it is of an
  iterator, the iterator is not one of that reference. A world is clean for them when
  every queued microtask is foreign, and so is every reaction that waits for a promise
  outside \<open>S\<close>.
\<close>

fun foreign :: "addr \<Rightarrow> paddr set \<Rightarrow> (nat \<Rightarrow> (addr \<times> gen_state) option) \<Rightarrow> cont \<Rightarrow> bool" where
  "foreign a S gs (PromisedResult b outer) = (b \<noteq> a \<and> outer \<notin> S)"
| "foreign a S gs (Adopt outer) = (outer \<notin> S)"
| "foreign a S gs (PromiseIterator g) = (case gs g of Some (b, st) \<Rightarrow> b \<noteq> a | None \<Rightarrow> True)"

definition clean :: "addr \<Rightarrow> paddr set \<Rightarrow> 'id world \<Rightarrow> bool" where
  "clean a S w \<longleftrightarrow>
     (\<forall>x \<in> set (microtasks w). foreign a S (gens w) (fst x)) \<and>
     (\<forall>p ks k. p \<notin> S \<longrightarrow> promise_store w p = Pending ks \<longrightarrow> k \<in> set ks \<longrightarrow>
        foreign a S (gens w) k)"

text \<open>
  Two worlds are related by \<open>quieter\<close> when the second differs from the first by steps
  that leave the registry alone: no reference is added or changes its id or type, nothing
  is armed, \<open>complete\<close> and \<open>cancelled\<close> are only ever set, \<open>complete\<close> not for an
  iterative task, and a settled promise keeps its settlement.
\<close>

definition quieter :: "'id world \<Rightarrow> 'id world \<Rightarrow> bool" where
  "quieter w w' \<longleftrightarrow>
     length (heap w') = length (heap w) \<and>
     (\<forall>a. ref_id (heap w' ! a) = ref_id (heap w ! a)) \<and>
     (\<forall>a. ref_type (heap w' ! a) = ref_type (heap w ! a)) \<and>
     (\<forall>a. complete (status (heap w ! a)) \<longrightarrow> complete (status (heap w' ! a))) \<and>
     (\<forall>a. complete (status (heap w' ! a)) \<longrightarrow>
          complete (status (heap w ! a)) \<or> ref_type (heap w ! a) \<noteq> Every) \<and>
     (\<forall>a. cancelled (status (heap w ! a)) \<longrightarrow> cancelled (status (heap w' ! a))) \<and>
     refs w' = refs w \<and>
     (\<forall>t e. timers w' t = Some e \<longrightarrow> timers w t = Some e) \<and>
     set (queue w') \<subseteq> set (queue w) \<and>
     next_promise w \<le> next_promise w' \<and>
     (\<forall>p s. p < next_promise w \<longrightarrow> promise_store w p = Settled s \<longrightarrow>
            promise_store w' p = Settled s)"

subsection \<open>Example runs\<close>

definition ex_handler :: "nat world" where
  "ex_handler = createTaskHandler False"

definition ex_five :: fn where
  "ex_five = (\<lambda>args. Returns (JNum 5))"

text \<open>\<open>after(1, 0, () => 5)\<close> on a new handler, and the same once its timer fired.\<close>

definition ex_after :: "nat world" where
  "ex_after = snd (after 1 0 (Some ex_five) [] ex_handler)"

definition ex_after_fired :: "nat world" where
  "ex_after_fired = fire_timer 0 ex_after"

text \<open>\<open>every(1, 10, () => 5)\<close> on a new handler.\<close>

definition ex_every :: "nat world" where
  "ex_every = snd (every 1 10 (Some ex_five) [] ex_handler)"

text \<open>\<open>job(2, getJob)\<close> on a new handler, for a job whose \<open>start\<close> does nothing and
  which has no \<open>cancelled\<close> entry point.\<close>

definition ex_job :: "nat world" where
  "ex_job = snd (job_task 2 (\<lambda>args. \<lparr> start = [], job_cancelled = None \<rparr>) [] ex_handler)"

section \<open>Basic facts about the operations\<close>

lemma settle_frame [simp]:
  "heap (settle p s w) = heap w"
  "refs (settle p s w) = refs w"
  "timers (settle p s w) = timers w"
  "queue (settle p s w) = queue w"
  "next_promise (settle p s w) = next_promise w"
  "next_timer (settle p s w) = next_timer w"
  "next_defer (settle p s w) = next_defer w"
  "gens (settle p s w) = gens w"
  "next_gen (settle p s w) = next_gen w"
  "console (settle p s w) = console w"
  "production (settle p s w) = production w"
  by (simp_all add: settle_def split: pstate.splits)

lemma settle_store:
  "promise_store (settle p s w) q =
     (if q = p \<and> pending (promise_store w p) then Settled s else promise_store w q)"
  by (simp add: settle_def pending_def split: pstate.splits)

lemma subscribe_frame [simp]:
  "heap (subscribe p k w) = heap w"
  "refs (subscribe p k w) = refs w"
  "timers (subscribe p k w) = timers w"
  "queue (subscribe p k w) = queue w"
  "next_promise (subscribe p k w) = next_promise w"
  "next_timer (subscribe p k w) = next_timer w"
  "next_defer (subscribe p k w) = next_defer w"
  "gens (subscribe p k w) = gens w"
  "next_gen (subscribe p k w) = next_gen w"
  "console (subscribe p k w) = console w"
  "production (subscribe p k w) = production w"
  by (simp_all add: subscribe_def split: pstate.splits)

lemma subscribe_pending [simp]:
  "pending (promise_store (subscribe p k w) q) = pending (promise_store w q)"
  by (cases "promise_store w p") (auto simp: subscribe_def pending_def)

lemma update_ref_frame [simp]:
  "length (heap (update_ref a f w)) = length (heap w)"
  "refs (update_ref a f w) = refs w"
  "timers (update_ref a f w) = timers w"
  "queue (update_ref a f w) = queue w"
  "promise_store (update_ref a f w) = promise_store w"
  "microtasks (update_ref a f w) = microtasks w"
  "next_promise (update_ref a f w) = next_promise w"
  "next_timer (update_ref a f w) = next_timer w"
  "next_defer (update_ref a f w) = next_defer w"
  "gens (update_ref a f w) = gens w"
  "next_gen (update_ref a f w) = next_gen w"
  "console (update_ref a f w) = console w"
  "production (update_ref a f w) = production w"
  by (simp_all add: update_ref_def)

lemma update_ref_nth:
  "heap (update_ref a f w) ! b =
     (if b = a \<and> a < length (heap w) then f (heap w ! a) else heap w ! b)"
  by (cases "a < length (heap w)") (auto simp: update_ref_def list_update_beyond)

lemma update_ref_id: "f (heap w ! a) = heap w ! a \<Longrightarrow> update_ref a f w = w"
  by (simp add: update_ref_def)

lemma run_canceller_frame [simp]:
  "heap (run_canceller c w) = heap w"
  "refs (run_canceller c w) = refs w"
  "promise_store (run_canceller c w) = promise_store w"
  "microtasks (run_canceller c w) = microtasks w"
  "next_promise (run_canceller c w) = next_promise w"
  "console (run_canceller c w) = console w"
  "production (run_canceller c w) = production w"
  by (cases c; simp)+

lemma TASK_CANCELLED_frame [simp]:
  "length (heap (snd (TASK_CANCELLED a ps w))) = length (heap w)"
  "refs (snd (TASK_CANCELLED a ps w)) = refs w"
  "timers (snd (TASK_CANCELLED a ps w)) = timers w"
  "queue (snd (TASK_CANCELLED a ps w)) = queue w"
  "next_promise (snd (TASK_CANCELLED a ps w)) = next_promise w"
  by (simp_all add: TASK_CANCELLED_def Let_def split: option.splits)

lemma TASK_CANCELLED_nth:
  "heap (snd (TASK_CANCELLED a ps w)) ! b =
     (if b = a \<and> a < length (heap w) \<and> \<not> complete (status (heap w ! a))
      then (heap w ! a)\<lparr> lastResult := TASK_CANCELLED_value,
              status := (status (heap w ! a))\<lparr> cancelled := True, complete := True \<rparr> \<rparr>
      else heap w ! b)"
  by (simp add: TASK_CANCELLED_def Let_def update_ref_nth split: option.splits)

lemma handler_cancel_single: "handler_cancel [i] w = cancelID i [] w"
  by (simp add: handler_cancel_def)

lemma cancelID_nth_complete:
  "a < length (heap w) \<Longrightarrow> complete (status (heap w ! a)) \<Longrightarrow>
   heap (snd (cancelID i ps w)) ! a = heap w ! a"
  by (simp add: cancelID_def Let_def TASK_CANCELLED_nth split: option.splits)

lemma cancelID_absent: "map_of (refs w) i = None \<Longrightarrow> cancelID i ps w = (ps, w)"
  by (simp add: cancelID_def)

lemma cancelID_refs: "map_of (refs (snd (cancelID i ps w))) i = None"
  by (simp add: cancelID_def Let_def delete_conv' split: option.splits)

lemma cancelID_length [simp]: "length (heap (snd (cancelID i ps w))) = length (heap w)"
  by (simp add: cancelID_def Let_def split: option.splits)

lemma cancelID_ref_id: "ref_id (heap (snd (cancelID i ps w)) ! a) = ref_id (heap w ! a)"
  by (simp add: cancelID_def Let_def TASK_CANCELLED_nth split: option.splits)

lemma cancelID_keeps_cancelled:
  "lastResult (heap w ! a) = TASK_CANCELLED_value \<Longrightarrow> cancelled (status (heap w ! a)) \<Longrightarrow>
   lastResult (heap (snd (cancelID i ps w)) ! a) = TASK_CANCELLED_value \<and>
   cancelled (status (heap (snd (cancelID i ps w)) ! a))"
  by (simp add: cancelID_def Let_def TASK_CANCELLED_nth split: option.splits)

subsection \<open>The example runs, evaluated\<close>

lemma ex_after_heap:
  "heap ex_after =
     [\<lparr> ref_id = 1, ref_type = After,
        status = \<lparr> complete = False, error = False, cancelled = False \<rparr>,
        lastResult = Value JUndefined, promise = None, promiseActions = None, job = None \<rparr>]"
  by (simp add: ex_after_def ex_handler_def after_def createTaskRef_def handler_cancel_def
      cancelID_def createTaskHandler_def setTimer_def Let_def)

lemma ex_after_timer:
  "timers ex_after 0 = Some \<lparr> t_kind = Timeout, t_ref = 0, t_fn = Some ex_five, t_args = [] \<rparr>"
  by (simp add: ex_after_def ex_handler_def after_def createTaskRef_def handler_cancel_def
      cancelID_def createTaskHandler_def setTimer_def Let_def)


lemma ex_after_fired_heap:
  "heap ex_after_fired =
     [\<lparr> ref_id = 1, ref_type = After,
        status = \<lparr> complete = True, error = False, cancelled = False \<rparr>,
        lastResult = Value (JNum 5), promise = None, promiseActions = None, job = None \<rparr>]"
  by (simp add: ex_after_fired_def fire_timer_def ex_after_timer execute_def ex_five_def
      EXECUTE_RESULT_def Let_def update_ref_def ex_after_heap)


lemma ex_every_heap:
  "heap ex_every =
     [\<lparr> ref_id = 1, ref_type = Every,
        status = \<lparr> complete = False, error = False, cancelled = False \<rparr>,
        lastResult = Value JUndefined, promise = None, promiseActions = None, job = None \<rparr>]"
  by (simp add: ex_every_def ex_handler_def every_def createTaskRef_def handler_cancel_def
      cancelID_def createTaskHandler_def setTimer_def Let_def)

section \<open>Invariants\<close>

subsection \<open>Steps that leave the registry alone\<close>

lemma quieter_refl [simp]: "quieter w w"
  by (simp add: quieter_def)

lemma quieter_trans: "quieter w w1 \<Longrightarrow> quieter w1 w2 \<Longrightarrow> quieter w w2"
  by (auto simp: quieter_def)

lemma reg_inv_quieter:
  assumes r: "reg_inv X w" and q: "quieter w w'"
  shows "reg_inv X w'"
proof -
  have len: "length (heap w') = length (heap w)"
    and ids: "\<And>a. ref_id (heap w' ! a) = ref_id (heap w ! a)"
    and cmp: "\<And>a. complete (status (heap w ! a)) \<Longrightarrow> complete (status (heap w' ! a))"
    and rf: "refs w' = refs w"
    and tm: "\<And>t e. timers w' t = Some e \<Longrightarrow> timers w t = Some e"
    and qu: "set (queue w') \<subseteq> set (queue w)"
    using q by (simp_all add: quieter_def)
  have r1: "\<And>t e. timers w t = Some e \<Longrightarrow>
        (\<exists>c. map_of (refs w) (ref_id (heap w ! t_ref e)) = Some (t_ref e, c) \<and> t \<in> cleared_timers c)"
    and r2: "\<And>e. e \<in> set (queue w) \<Longrightarrow>
        (\<exists>c. map_of (refs w) (ref_id (heap w ! d_ref (snd e))) = Some (d_ref (snd e), c) \<and>
             fst e \<in> cleared_defers c)"
    and r3: "\<And>a. a < length (heap w) \<Longrightarrow> a \<notin> X \<Longrightarrow> \<not> complete (status (heap w ! a)) \<Longrightarrow>
        (\<exists>c. map_of (refs w) (ref_id (heap w ! a)) = Some (a, c))"
    and r4: "\<And>i a c. map_of (refs w) i = Some (a, c) \<Longrightarrow> a < length (heap w) \<and> ref_id (heap w ! a) = i"
    using r unfolding reg_inv_def by blast+
  show ?thesis
    unfolding reg_inv_def
  proof (intro conjI allI impI ballI)
    fix t e assume "timers w' t = Some e"
    then have "timers w t = Some e" by (rule tm)
    from r1 [OF this] show "\<exists>c. map_of (refs w') (ref_id (heap w' ! t_ref e)) = Some (t_ref e, c) \<and> t \<in> cleared_timers c"
      by (simp add: rf ids)
  next
    fix e assume "e \<in> set (queue w')"
    then have "e \<in> set (queue w)" using qu by blast
    from r2 [OF this] show "\<exists>c. map_of (refs w') (ref_id (heap w' ! d_ref (snd e))) = Some (d_ref (snd e), c) \<and>
             fst e \<in> cleared_defers c"
      by (simp add: rf ids)
  next
    fix a assume a: "a < length (heap w')" "a \<notin> X" "\<not> complete (status (heap w' ! a))"
    then have "\<not> complete (status (heap w ! a))" using cmp by blast
    with a r3 [of a] show "\<exists>c. map_of (refs w') (ref_id (heap w' ! a)) = Some (a, c)"
      by (simp add: rf ids len)
  next
    fix i a c assume "map_of (refs w') i = Some (a, c)"
    then have "map_of (refs w) i = Some (a, c)" by (simp add: rf)
    from r4 [OF this] show "a < length (heap w')" by (simp add: len)
  next
    fix i a c assume "map_of (refs w') i = Some (a, c)"
    then have "map_of (refs w) i = Some (a, c)" by (simp add: rf)
    from r4 [OF this] show "ref_id (heap w' ! a) = i" by (simp add: ids)
  qed
qed

lemma settle_settled [simp]:
  "promise_store w q = Settled s' \<Longrightarrow> promise_store (settle p s w) q = Settled s'"
  by (auto simp: settle_store pending_def)

lemma subscribe_settled [simp]:
  "promise_store w q = Settled s' \<Longrightarrow> promise_store (subscribe p k w) q = Settled s'"
  by (cases "promise_store w p") (auto simp: subscribe_def)

lemma quieter_settle [simp]: "quieter w (settle p s w)"
  by (simp add: quieter_def)

lemma quieter_subscribe [simp]: "quieter w (subscribe p k w)"
  by (simp add: quieter_def)

lemma quieter_update_ref:
  "(\<And>r. ref_id (f r) = ref_id r) \<Longrightarrow> (\<And>r. ref_type (f r) = ref_type r) \<Longrightarrow>
   (\<And>r. complete (status (f r)) = complete (status r)) \<Longrightarrow>
   (\<And>r. cancelled (status r) \<Longrightarrow> cancelled (status (f r))) \<Longrightarrow>
   quieter w (update_ref a f w)"
  by (simp add: quieter_def update_ref_nth)

lemma quieter_EXECUTE_RESULT [simp]: "quieter w (EXECUTE_RESULT a err res w)"
  by (simp add: quieter_def EXECUTE_RESULT_def Let_def update_ref_nth split: option.splits)

lemma quieter_execute [simp]: "quieter w (execute a f args w)"
  by (simp add: execute_def split: option.splits completion.splits)

lemma quieter_getNextPromise [simp]: "quieter w (snd (getNextPromise a w))"
  by (simp add: quieter_def getNextPromise_def new_Promise_def Let_def update_ref_nth split: option.splits)

lemma quieter_finally [simp]: "quieter w (finally_block a w)"
  by (simp add: quieter_def finally_block_def update_ref_nth)

lemma quieter_promisedResult [simp]: "quieter w (snd (promisedResult a w))"
  by (simp add: quieter_def promisedResult_def getNextPromise_def new_Promise_def Let_def
      finally_block_def update_ref_nth split: option.splits prod.splits)

lemma quieter_call_promise [simp]: "quieter w (snd (call_promise a w))"
  by (simp add: call_promise_def split: sum.splits prod.splits)
    (metis quieter_promisedResult snd_conv)

lemma quieter_call_promises [simp]: "quieter w (snd (call_promises a w))"
  by (simp add: call_promises_def quieter_def split: sum.splits)

lemma quieter_promisedResult_resume [simp]: "quieter w (promisedResult_resume a outer s w)"
  by (simp add: quieter_def promisedResult_resume_def finally_block_def update_ref_nth split: settlement.splits)

lemma quieter_loop [simp]: "quieter w (promiseIterator_loop g a w)"
  by (simp add: quieter_def promiseIterator_loop_def getNextPromise_def new_Promise_def Let_def
      finally_block_def update_ref_nth split: option.splits prod.splits)

lemma quieter_next [simp]: "quieter w (promiseIterator_next g w)"
  by (auto simp: promiseIterator_next_def split: option.splits gen_state.splits
      intro: quieter_trans [OF quieter_finally quieter_loop])

lemma quieter_resume [simp]: "quieter w (promiseIterator_resume g s w)"
  by (simp add: quieter_def promiseIterator_resume_def finally_block_def update_ref_nth 
     split: option.splits gen_state.splits settlement.splits)

lemma quieter_return [simp]: "quieter w (promiseIterator_return g w)"
  by (simp add: quieter_def promiseIterator_return_def finally_block_def update_ref_nth 
     split: option.splits gen_state.splits settlement.splits)

lemma quieter_run_cont [simp]: "quieter w (run_cont k s w)"
  by (cases k) simp_all

lemma quieter_microtask [simp]: "quieter w (microtask w)"
proof (cases "microtasks w")
  case Nil
  then show ?thesis by (simp add: microtask_def)
next
  case (Cons x ms)
  obtain k s where x: "x = (k, s)" by (cases x)
  have "quieter w (w\<lparr>microtasks := ms\<rparr>)" by (simp add: quieter_def)
  then have "quieter w (run_cont k s (w\<lparr>microtasks := ms\<rparr>))"
    by (rule quieter_trans) simp
  then show ?thesis using Cons x by (simp add: microtask_def)
qed

lemma quieter_fire_timer [simp]: "quieter w (fire_timer t w)"
proof (cases "timers w t")
  case None
  then show ?thesis by (simp add: fire_timer_def)
next
  case (Some e)
  have "quieter w (if t_kind e = Timeout then w\<lparr> timers := (timers w)(t := None) \<rparr> else w)"
    by (simp add: quieter_def)
  then have "quieter w (execute (t_ref e) (t_fn e) (t_args e)
       (if t_kind e = Timeout then w\<lparr> timers := (timers w)(t := None) \<rparr> else w))"
    by (rule quieter_trans) simp
  then show ?thesis using Some by (simp add: fire_timer_def)
qed

lemma quieter_fold_execute:
  "quieter w w' \<Longrightarrow>
   quieter w (fold (\<lambda>e w'. execute (d_ref (snd e)) (d_fn (snd e)) (d_args (snd e)) w') es w')"
proof (induction es arbitrary: w')
  case Nil
  then show ?case by simp
next
  case (Cons e es)
  have "quieter w (execute (d_ref (snd e)) (d_fn (snd e)) (d_args (snd e)) w')"
    using Cons.prems by (rule quieter_trans) simp
  then show ?case using Cons.IH by simp
qed

lemma quieter_flush [simp]: "quieter w (flush w)"
  unfolding flush_def by (rule quieter_fold_execute) (simp add: quieter_def)

lemma quieter_resolve [simp]: "quieter w (resolve a v w)" by (simp add: resolve_def)
lemma quieter_reject [simp]: "quieter w (reject a v w)" by (simp add: reject_def)


lemma reg_invD1:
  "reg_inv X w \<Longrightarrow> timers w t = Some e \<Longrightarrow>
   \<exists>c. map_of (refs w) (ref_id (heap w ! t_ref e)) = Some (t_ref e, c) \<and> t \<in> cleared_timers c"
  unfolding reg_inv_def by blast

lemma reg_invD2:
  "reg_inv X w \<Longrightarrow> e \<in> set (queue w) \<Longrightarrow>
   \<exists>c. map_of (refs w) (ref_id (heap w ! d_ref (snd e))) = Some (d_ref (snd e), c) \<and>
       fst e \<in> cleared_defers c"
  unfolding reg_inv_def by blast

lemma reg_invD3:
  "reg_inv X w \<Longrightarrow> a < length (heap w) \<Longrightarrow> a \<notin> X \<Longrightarrow> \<not> complete (status (heap w ! a)) \<Longrightarrow>
   \<exists>c. map_of (refs w) (ref_id (heap w ! a)) = Some (a, c)"
  unfolding reg_inv_def by blast

lemma reg_invD4:
  "reg_inv X w \<Longrightarrow> map_of (refs w) i = Some (a, c) \<Longrightarrow>
   a < length (heap w) \<and> ref_id (heap w ! a) = i"
  unfolding reg_inv_def by blast

lemma reg_invI:
  assumes "\<And>t e. timers w t = Some e \<Longrightarrow>
      \<exists>c. map_of (refs w) (ref_id (heap w ! t_ref e)) = Some (t_ref e, c) \<and> t \<in> cleared_timers c"
    and "\<And>e. e \<in> set (queue w) \<Longrightarrow>
      \<exists>c. map_of (refs w) (ref_id (heap w ! d_ref (snd e))) = Some (d_ref (snd e), c) \<and>
          fst e \<in> cleared_defers c"
    and "\<And>a. a < length (heap w) \<Longrightarrow> a \<notin> X \<Longrightarrow> \<not> complete (status (heap w ! a)) \<Longrightarrow>
      \<exists>c. map_of (refs w) (ref_id (heap w ! a)) = Some (a, c)"
    and "\<And>i a c. map_of (refs w) i = Some (a, c) \<Longrightarrow>
      a < length (heap w) \<and> ref_id (heap w ! a) = i"
  shows "reg_inv X w"
  unfolding reg_inv_def using assms by blast

lemma run_canceller_timers:
  "timers (run_canceller c w) t = (if t \<in> cleared_timers c then None else timers w t)"
  by (cases c) simp_all

lemma run_canceller_queue:
  "set (queue (run_canceller c w)) = {e \<in> set (queue w). fst e \<notin> cleared_defers c}"
  by (cases c) auto

lemma TASK_CANCELLED_complete:
  "complete (status (heap (snd (TASK_CANCELLED a ps w)) ! b)) \<longleftrightarrow>
     complete (status (heap w ! b)) \<or> (b = a \<and> a < length (heap w))"
  by (auto simp: TASK_CANCELLED_nth)

lemma TASK_CANCELLED_ref_id [simp]:
  "ref_id (heap (snd (TASK_CANCELLED a ps w)) ! b) = ref_id (heap w ! b)"
  by (simp add: TASK_CANCELLED_nth)

lemma reg_inv_cancelID:
  assumes r: "reg_inv X w"
  shows "reg_inv X (snd (cancelID i ps w))"
proof (cases "map_of (refs w) i")
  case None
  then show ?thesis using r by (simp add: cancelID_absent)
next
  case (Some d)
  obtain b c where d: "d = (b, c)" by (cases d)
  define w' where "w' = snd (cancelID i ps w)"
  have w': "w' = snd (TASK_CANCELLED b ps ((run_canceller c w)\<lparr> refs := AList.delete i (refs w) \<rparr>))"
    using Some d by (simp add: w'_def cancelID_def Let_def)
  have b: "b < length (heap w)" "ref_id (heap w ! b) = i"
    using reg_invD4 [OF r] Some d by auto
  have len: "length (heap w') = length (heap w)"
    by (simp add: w')
  have ids: "\<And>a. ref_id (heap w' ! a) = ref_id (heap w ! a)"
    by (simp add: w')
  have cmp: "\<And>a. complete (status (heap w' ! a)) \<longleftrightarrow> complete (status (heap w ! a)) \<or> a = b"
    using b by (simp add: w' TASK_CANCELLED_complete)
  have rf: "\<And>j. map_of (refs w') j = (if j = i then None else map_of (refs w) j)"
    by (simp add: w' delete_conv')
  have tm: "\<And>t. timers w' t = (if t \<in> cleared_timers c then None else timers w t)"
    by (simp add: w' run_canceller_timers)
  have qu: "set (queue w') = {e \<in> set (queue w). fst e \<notin> cleared_defers c}"
    by (simp add: w' run_canceller_queue)
  have "reg_inv X w'"
  proof (rule reg_invI)
    fix t e assume "timers w' t = Some e"
    then have t: "timers w t = Some e" "t \<notin> cleared_timers c"
      by (auto simp: tm split: if_splits)
    from reg_invD1 [OF r t(1)] obtain c' where
      c': "map_of (refs w) (ref_id (heap w ! t_ref e)) = Some (t_ref e, c')" "t \<in> cleared_timers c'"
      by blast
    have "ref_id (heap w ! t_ref e) \<noteq> i"
      using c' t(2) Some d by auto
    then show "\<exists>c. map_of (refs w') (ref_id (heap w' ! t_ref e)) = Some (t_ref e, c) \<and> t \<in> cleared_timers c"
      using c' by (simp add: rf ids)
  next
    fix e assume "e \<in> set (queue w')"
    then have t: "e \<in> set (queue w)" "fst e \<notin> cleared_defers c"
      by (auto simp: qu)
    from reg_invD2 [OF r t(1)] obtain c' where
      c': "map_of (refs w) (ref_id (heap w ! d_ref (snd e))) = Some (d_ref (snd e), c')"
        "fst e \<in> cleared_defers c'"
      by blast
    have "ref_id (heap w ! d_ref (snd e)) \<noteq> i"
      using c' t(2) Some d by auto
    then show "\<exists>c. map_of (refs w') (ref_id (heap w' ! d_ref (snd e))) = Some (d_ref (snd e), c) \<and>
          fst e \<in> cleared_defers c"
      using c' by (simp add: rf ids)
  next
    fix a assume a: "a < length (heap w')" "a \<notin> X" "\<not> complete (status (heap w' ! a))"
    then have a': "a < length (heap w)" "\<not> complete (status (heap w ! a))" "a \<noteq> b"
      by (auto simp: len cmp)
    from reg_invD3 [OF r a'(1) a(2) a'(2)] obtain c' where
      c': "map_of (refs w) (ref_id (heap w ! a)) = Some (a, c')"
      by blast
    have "ref_id (heap w ! a) \<noteq> i"
      using c' a'(3) Some d by auto
    then show "\<exists>c. map_of (refs w') (ref_id (heap w' ! a)) = Some (a, c)"
      using c' by (simp add: rf ids)
  next
    fix j a c' assume "map_of (refs w') j = Some (a, c')"
    then have "map_of (refs w) j = Some (a, c')"
      by (auto simp: rf split: if_splits)
    from reg_invD4 [OF r this] show "a < length (heap w') \<and> ref_id (heap w' ! a) = j"
      by (simp add: len ids)
  qed
  then show ?thesis by (simp add: w'_def)
qed

lemma reg_inv_fold_cancelID:
  "reg_inv X w \<Longrightarrow> reg_inv X (snd (fold (\<lambda>i (promises, w'). cancelID i promises w') ids (ps, w)))"
proof (induction ids arbitrary: ps w)
  case Nil
  then show ?case by simp
next
  case (Cons i ids)
  obtain ps' w' where c: "cancelID i ps w = (ps', w')" by (cases "cancelID i ps w")
  have "reg_inv X w'" using reg_inv_cancelID [OF Cons.prems, of i ps] c by simp
  from Cons.IH [OF this] show ?case using c by simp
qed

lemma reg_inv_handler_cancel: "reg_inv X w \<Longrightarrow> reg_inv X (snd (handler_cancel ids w))"
  unfolding handler_cancel_def by (rule reg_inv_fold_cancelID)

lemma reg_inv_clear: "reg_inv X w \<Longrightarrow> reg_inv X (snd (clear w))"
  unfolding clear_def by (rule reg_inv_handler_cancel)

lemma quieter_mark_cancelled:
  "quieter w (update_ref a
                 (\<lambda>r. r\<lparr> lastResult := TASK_CANCELLED_value,
                        status := (status r)\<lparr> cancelled := True \<rparr> \<rparr>) w)"
  by (rule quieter_update_ref) simp_all

lemma reg_inv_cancel: "reg_inv X w \<Longrightarrow> reg_inv X (cancel a w)"
  unfolding cancel_def Let_def
  by (rule reg_inv_handler_cancel) (erule reg_inv_quieter, rule quieter_mark_cancelled)

lemma cancel_unregistered:
  assumes "map_of (refs w) (ref_id (heap w ! a)) = None"
  shows "cancel a w = update_ref a
                 (\<lambda>r. r\<lparr> lastResult := TASK_CANCELLED_value,
                        status := (status r)\<lparr> cancelled := True \<rparr> \<rparr>) w"
  using assms
  by (simp add: cancel_def Let_def handler_cancel_single update_ref_nth cancelID_absent)

lemma quieter_run_call:
  assumes "map_of (refs w) (ref_id (heap w ! a)) = None"
  shows "quieter w (run_call a c w)"
proof (cases c)
  case Call_cancel
  then show ?thesis
    using cancel_unregistered [OF assms] quieter_mark_cancelled [of w a] by simp
qed simp_all

lemma quieter_fold_run_call:
  assumes "map_of (refs w) (ref_id (heap w ! a)) = None" and "quieter w0 w"
  shows "quieter w0 (fold (run_call a) cs w)"
  using assms
proof (induction cs arbitrary: w)
  case Nil
  then show ?case by simp
next
  case (Cons c cs)
  have q: "quieter w (run_call a c w)"
    using Cons.prems(1) by (rule quieter_run_call)
  then have "map_of (refs (run_call a c w)) (ref_id (heap (run_call a c w) ! a)) = None"
    using Cons.prems(1) by (simp add: quieter_def)
  moreover have "quieter w0 (run_call a c w)"
    using Cons.prems(2) q by (rule quieter_trans)
  ultimately show ?case using Cons.IH by simp
qed

subsection \<open>Creation of a reference\<close>

lemma handler_cancel_length [simp]: "length (heap (snd (handler_cancel [i] w))) = length (heap w)"
  by (simp add: handler_cancel_single)

lemma createTaskRef_fst [simp]: "fst (createTaskRef ty i jd w) = length (heap w)"
  by (simp add: createTaskRef_def Let_def split: option.splits prod.splits)

lemma createTaskRef_quieter:
  "quieter
     ((snd (handler_cancel [i] w))\<lparr> heap := heap (snd (handler_cancel [i] w)) @
         [\<lparr> ref_id = i, ref_type = ty,
            status = \<lparr> complete = False, error = False, cancelled = False \<rparr>,
            lastResult = Value JUndefined, promise = None, promiseActions = None,
            job = None \<rparr>] \<rparr>)
     (snd (createTaskRef ty i jd w))"
proof (cases jd)
  case None
  then show ?thesis by (simp add: createTaskRef_def Let_def)
next
  case (Some d)
  obtain getJob args where d: "d = (getJob, args)" by (cases d)
  define w1 where "w1 = snd (handler_cancel [i] w)"
  define a where "a = length (heap w1)"
  define w2 where "w2 = w1\<lparr> heap := heap w1 @
         [\<lparr> ref_id = i, ref_type = ty,
            status = \<lparr> complete = False, error = False, cancelled = False \<rparr>,
            lastResult = Value JUndefined, promise = None, promiseActions = None,
            job = None \<rparr>] \<rparr>"
  define w3 where "w3 = update_ref a (\<lambda>r. r\<lparr> job := Some (getJob args) \<rparr>) w2"
  define w4 where "w4 = snd (call_promise a w3)"
  have c: "snd (createTaskRef ty i jd w) = fold (run_call a) (start (getJob args)) w4"
    using Some d by (simp add: createTaskRef_def Let_def w1_def a_def w2_def w3_def w4_def)
  have q3: "quieter w2 w3"
    unfolding w3_def by (rule quieter_update_ref) simp_all
  have "quieter w3 w4"
    unfolding w4_def by simp
  with q3 have q4: "quieter w2 w4"
    by (rule quieter_trans)
  have "map_of (refs w1) i = None"
    by (simp add: w1_def handler_cancel_single cancelID_refs)
  then have "map_of (refs w2) (ref_id (heap w2 ! a)) = None"
    by (simp add: w2_def a_def)
  then have "map_of (refs w4) (ref_id (heap w4 ! a)) = None"
    using q4 by (simp add: quieter_def)
  then have "quieter w2 (fold (run_call a) (start (getJob args)) w4)"
    using q4 by (rule quieter_fold_run_call)
  then show ?thesis
    by (simp add: c w2_def w1_def)
qed

lemma reg_inv_alloc:
  assumes r: "reg_inv {} w"
  shows "reg_inv {length (heap w)} (w\<lparr> heap := heap w @ [r0] \<rparr>)"
proof (rule reg_invI)
  fix t e assume "timers (w\<lparr> heap := heap w @ [r0] \<rparr>) t = Some e"
  then have t: "timers w t = Some e" by simp
  from reg_invD1 [OF r t] obtain c where
    c: "map_of (refs w) (ref_id (heap w ! t_ref e)) = Some (t_ref e, c)" "t \<in> cleared_timers c"
    by blast
  from reg_invD4 [OF r c(1)] have "t_ref e < length (heap w)" by simp
  then show "\<exists>c. map_of (refs (w\<lparr> heap := heap w @ [r0] \<rparr>))
        (ref_id (heap (w\<lparr> heap := heap w @ [r0] \<rparr>) ! t_ref e)) = Some (t_ref e, c) \<and> t \<in> cleared_timers c"
    using c by (simp add: nth_append)
next
  fix e assume "e \<in> set (queue (w\<lparr> heap := heap w @ [r0] \<rparr>))"
  then have t: "e \<in> set (queue w)" by simp
  from reg_invD2 [OF r t] obtain c where
    c: "map_of (refs w) (ref_id (heap w ! d_ref (snd e))) = Some (d_ref (snd e), c)"
      "fst e \<in> cleared_defers c"
    by blast
  from reg_invD4 [OF r c(1)] have "d_ref (snd e) < length (heap w)" by simp
  then show "\<exists>c. map_of (refs (w\<lparr> heap := heap w @ [r0] \<rparr>))
        (ref_id (heap (w\<lparr> heap := heap w @ [r0] \<rparr>) ! d_ref (snd e))) = Some (d_ref (snd e), c) \<and>
        fst e \<in> cleared_defers c"
    using c by (simp add: nth_append)
next
  fix a assume a: "a < length (heap (w\<lparr> heap := heap w @ [r0] \<rparr>))" "a \<notin> {length (heap w)}"
    "\<not> complete (status (heap (w\<lparr> heap := heap w @ [r0] \<rparr>) ! a))"
  then have a': "a < length (heap w)" by simp
  with a(3) have "\<not> complete (status (heap w ! a))" by (simp add: nth_append)
  from reg_invD3 [OF r a' _ this] a'
  show "\<exists>c. map_of (refs (w\<lparr> heap := heap w @ [r0] \<rparr>))
      (ref_id (heap (w\<lparr> heap := heap w @ [r0] \<rparr>) ! a)) = Some (a, c)"
    by (simp add: nth_append)
next
  fix j a c assume "map_of (refs (w\<lparr> heap := heap w @ [r0] \<rparr>)) j = Some (a, c)"
  then have "map_of (refs w) j = Some (a, c)" by simp
  from reg_invD4 [OF r this]
  show "a < length (heap (w\<lparr> heap := heap w @ [r0] \<rparr>)) \<and>
      ref_id (heap (w\<lparr> heap := heap w @ [r0] \<rparr>) ! a) = j"
    by (simp add: nth_append)
qed

lemma createTaskRef_props:
  assumes r: "reg_inv {} w"
  shows "reg_inv {length (heap w)} (snd (createTaskRef ty i jd w))"
    and "length (heap (snd (createTaskRef ty i jd w))) = Suc (length (heap w))"
    and "map_of (refs (snd (createTaskRef ty i jd w))) i = None"
    and "ref_id (heap (snd (createTaskRef ty i jd w)) ! length (heap w)) = i"
proof -
  define w1 where "w1 = snd (handler_cancel [i] w)"
  define w2 where "w2 = w1\<lparr> heap := heap w1 @
         [\<lparr> ref_id = i, ref_type = ty,
            status = \<lparr> complete = False, error = False, cancelled = False \<rparr>,
            lastResult = Value JUndefined, promise = None, promiseActions = None,
            job = None \<rparr>] \<rparr>"
  have q: "quieter w2 (snd (createTaskRef ty i jd w))"
    unfolding w2_def w1_def by (rule createTaskRef_quieter)
  have l1: "length (heap w1) = length (heap w)"
    by (simp add: w1_def)
  have "reg_inv {} w1"
    unfolding w1_def using r by (rule reg_inv_handler_cancel)
  then have "reg_inv {length (heap w1)} w2"
    unfolding w2_def by (rule reg_inv_alloc)
  then show "reg_inv {length (heap w)} (snd (createTaskRef ty i jd w))"
    using q by (simp add: l1 reg_inv_quieter)
  show "length (heap (snd (createTaskRef ty i jd w))) = Suc (length (heap w))"
    using q by (simp add: quieter_def w2_def l1)
  have "map_of (refs w1) i = None"
    by (simp add: w1_def handler_cancel_single cancelID_refs)
  then show "map_of (refs (snd (createTaskRef ty i jd w))) i = None"
    using q by (simp add: quieter_def w2_def)
  have "ref_id (heap w2 ! length (heap w)) = i"
    by (simp add: w2_def l1 [symmetric])
  then show "ref_id (heap (snd (createTaskRef ty i jd w)) ! length (heap w)) = i"
    using q by (simp add: quieter_def)
qed

lemma reg_inv_register:
  assumes r: "reg_inv {a} w"
    and n: "map_of (refs w) i = None"
    and a: "a < length (heap w)" "ref_id (heap w ! a) = i"
    and h: "heap w' = heap w"
    and rf: "refs w' = AList.update i (a, c) (refs w)"
    and tm: "\<And>t e. timers w' t = Some e \<Longrightarrow>
               timers w t = Some e \<or> (t_ref e = a \<and> t \<in> cleared_timers c)"
    and qu: "\<And>e. e \<in> set (queue w') \<Longrightarrow>
               e \<in> set (queue w) \<or> (d_ref (snd e) = a \<and> fst e \<in> cleared_defers c)"
  shows "reg_inv {} w'"
proof (rule reg_invI)
  fix t e assume "timers w' t = Some e"
  from tm [OF this] show "\<exists>c. map_of (refs w') (ref_id (heap w' ! t_ref e)) = Some (t_ref e, c) \<and> t \<in> cleared_timers c"
  proof
    assume "timers w t = Some e"
    from reg_invD1 [OF r this] obtain c' where
      c': "map_of (refs w) (ref_id (heap w ! t_ref e)) = Some (t_ref e, c')" "t \<in> cleared_timers c'"
      by blast
    then have "ref_id (heap w ! t_ref e) \<noteq> i" using n by auto
    then show ?thesis using c' by (simp add: h rf update_conv')
  next
    assume "t_ref e = a \<and> t \<in> cleared_timers c"
    then show ?thesis using a by (simp add: h rf update_conv')
  qed
next
  fix e assume "e \<in> set (queue w')"
  from qu [OF this] show "\<exists>c. map_of (refs w') (ref_id (heap w' ! d_ref (snd e))) = Some (d_ref (snd e), c) \<and>
          fst e \<in> cleared_defers c"
  proof
    assume "e \<in> set (queue w)"
    from reg_invD2 [OF r this] obtain c' where
      c': "map_of (refs w) (ref_id (heap w ! d_ref (snd e))) = Some (d_ref (snd e), c')"
        "fst e \<in> cleared_defers c'"
      by blast
    then have "ref_id (heap w ! d_ref (snd e)) \<noteq> i" using n by auto
    then show ?thesis using c' by (simp add: h rf update_conv')
  next
    assume "d_ref (snd e) = a \<and> fst e \<in> cleared_defers c"
    then show ?thesis using a by (simp add: h rf update_conv')
  qed
next
  fix b assume b: "b < length (heap w')" "b \<notin> {}" "\<not> complete (status (heap w' ! b))"
  show "\<exists>c. map_of (refs w') (ref_id (heap w' ! b)) = Some (b, c)"
  proof (cases "b = a")
    case True
    then show ?thesis using a by (simp add: h rf update_conv')
  next
    case False
    with b have "b < length (heap w)" "b \<notin> {a}" "\<not> complete (status (heap w ! b))"
      by (simp_all add: h)
    from reg_invD3 [OF r this] obtain c' where
      c': "map_of (refs w) (ref_id (heap w ! b)) = Some (b, c')"
      by blast
    then have "ref_id (heap w ! b) \<noteq> i" using n by auto
    then show ?thesis using c' by (simp add: h rf update_conv')
  qed
next
  fix j b c' assume m: "map_of (refs w') j = Some (b, c')"
  show "b < length (heap w') \<and> ref_id (heap w' ! b) = j"
  proof (cases "j = i")
    case True
    then show ?thesis using m a by (simp add: h rf update_conv')
  next
    case False
    with m have "map_of (refs w) j = Some (b, c')" by (simp add: rf update_conv')
    from reg_invD4 [OF r this] show ?thesis by (simp add: h)
  qed
qed

subsection \<open>The registry invariant holds in every reachable state\<close>

lemma after_snd:
  "snd (after i delay f args w) =
     (let w1 = snd (createTaskRef After i None w); t = next_timer w1
      in w1\<lparr> timers := (timers w1)(t \<mapsto> \<lparr> t_kind = Timeout, t_ref = length (heap w), t_fn = f, t_args = args \<rparr>),
             next_timer := Suc t,
             refs := AList.update i (length (heap w), ClearTimeout t) (refs w1) \<rparr>)"
  by (simp add: after_def setTimer_def Let_def case_prod_beta)

lemma every_snd:
  "snd (every i interval f args w) =
     (let w1 = snd (createTaskRef Every i None w); t = next_timer w1
      in w1\<lparr> timers := (timers w1)(t \<mapsto> \<lparr> t_kind = Interval, t_ref = length (heap w), t_fn = f, t_args = args \<rparr>),
             next_timer := Suc t,
             refs := AList.update i (length (heap w), ClearInterval t) (refs w1) \<rparr>)"
  by (simp add: every_def setTimer_def Let_def case_prod_beta)

lemma defer_snd:
  "snd (defer_task i f args w) =
     (let w1 = snd (createTaskRef Defer i None w); q = next_defer w1
      in w1\<lparr> queue := queue w1 @ [(q, \<lparr> d_ref = length (heap w), d_fn = f, d_args = args \<rparr>)],
             next_defer := Suc q,
             refs := AList.update i (length (heap w), CancelDefer q) (refs w1) \<rparr>)"
  by (simp add: defer_task_def queue_add_def Let_def case_prod_beta)

lemma everyNow_snd:
  "snd (everyNow i interval f args w) =
     (let w1 = snd (createTaskRef Every i None w); t = next_timer w1; q = next_defer w1
      in w1\<lparr> timers := (timers w1)(t \<mapsto> \<lparr> t_kind = Interval, t_ref = length (heap w), t_fn = f, t_args = args \<rparr>),
             next_timer := Suc t,
             queue := queue w1 @ [(q, \<lparr> d_ref = length (heap w), d_fn = f, d_args = args \<rparr>)],
             next_defer := Suc q,
             refs := AList.update i (length (heap w), ClearIntervalCancelDefer t q) (refs w1) \<rparr>)"
  by (simp add: everyNow_def setTimer_def queue_add_def Let_def case_prod_beta)

lemma job_snd:
  "snd (job_task i getJob args w) =
     (let w1 = snd (createTaskRef Job i (Some (getJob, args)) w)
      in w1\<lparr> refs := AList.update i (length (heap w), NOOP) (refs w1) \<rparr>)"
  by (simp add: job_task_def Let_def case_prod_beta)


lemma reg_inv_after:
  assumes r: "reg_inv {} w"
  shows "reg_inv {} (snd (after i delay f args w))"
proof -
  define w1 where "w1 = snd (createTaskRef After i None w)"
  note p = createTaskRef_props [OF r, of After i None, folded w1_def]
  show ?thesis
    by (rule reg_inv_register [OF p(1) p(3) _ p(4), where c = "ClearTimeout (next_timer w1)"])
      (auto simp: after_snd Let_def p(2) w1_def [symmetric] split: if_splits)
qed

lemma reg_inv_every:
  assumes r: "reg_inv {} w"
  shows "reg_inv {} (snd (every i delay f args w))"
proof -
  define w1 where "w1 = snd (createTaskRef Every i None w)"
  note p = createTaskRef_props [OF r, of Every i None, folded w1_def]
  show ?thesis
    by (rule reg_inv_register [OF p(1) p(3) _ p(4), where c = "ClearInterval (next_timer w1)"])
      (auto simp: every_snd Let_def p(2) w1_def [symmetric] split: if_splits)
qed

lemma reg_inv_defer:
  assumes r: "reg_inv {} w"
  shows "reg_inv {} (snd (defer_task i f args w))"
proof -
  define w1 where "w1 = snd (createTaskRef Defer i None w)"
  note p = createTaskRef_props [OF r, of Defer i None, folded w1_def]
  show ?thesis
    by (rule reg_inv_register [OF p(1) p(3) _ p(4), where c = "CancelDefer (next_defer w1)"])
      (auto simp: defer_snd Let_def p(2) w1_def [symmetric] split: if_splits)
qed

lemma reg_inv_everyNow:
  assumes r: "reg_inv {} w"
  shows "reg_inv {} (snd (everyNow i delay f args w))"
proof -
  define w1 where "w1 = snd (createTaskRef Every i None w)"
  note p = createTaskRef_props [OF r, of Every i None, folded w1_def]
  show ?thesis
    by (rule reg_inv_register [OF p(1) p(3) _ p(4),
          where c = "ClearIntervalCancelDefer (next_timer w1) (next_defer w1)"])
      (auto simp: everyNow_snd Let_def p(2) w1_def [symmetric] split: if_splits)
qed

lemma reg_inv_job:
  assumes r: "reg_inv {} w"
  shows "reg_inv {} (snd (job_task i getJob args w))"
proof -
  define w1 where "w1 = snd (createTaskRef Job i (Some (getJob, args)) w)"
  note p = createTaskRef_props [OF r, of Job i "Some (getJob, args)", folded w1_def]
  show ?thesis
    by (rule reg_inv_register [OF p(1) p(3) _ p(4), where c = NOOP])
      (auto simp: job_snd Let_def p(2) w1_def [symmetric] split: if_splits)
qed

lemma reg_inv_init: "reg_inv {} (createTaskHandler b)"
  by (simp add: reg_inv_def createTaskHandler_def)

lemma quieter_event: "\<not> cancelling e \<Longrightarrow> quieter w (run_event e w)"
  by (cases e) simp_all

lemma reg_inv_event: "reg_inv {} w \<Longrightarrow> reg_inv {} (run_event e w)"
proof (cases "cancelling e")
  case False
  assume "reg_inv {} w"
  then show ?thesis using quieter_event [OF False] by (rule reg_inv_quieter)
next
  case True
  assume "reg_inv {} w"
  with True show ?thesis
    by (cases e)
      (simp_all add: reg_inv_after reg_inv_every reg_inv_defer reg_inv_everyNow reg_inv_job
        reg_inv_handler_cancel reg_inv_clear reg_inv_cancel)
qed

lemma reachable_reg_inv: "reachable w \<Longrightarrow> reg_inv {} w"
  by (induction rule: reachable.induct) (simp_all add: reg_inv_init reg_inv_event)

subsection \<open>The promise invariant holds in every reachable state\<close>

lemma prom_inv_frame [simp]:
  "prom_inv (w\<lparr> timers := x1 \<rparr>) = prom_inv w"
  "prom_inv (w\<lparr> refs := x2 \<rparr>) = prom_inv w"
  "prom_inv (w\<lparr> queue := x3 \<rparr>) = prom_inv w"
  "prom_inv (w\<lparr> gens := x4 \<rparr>) = prom_inv w"
  "prom_inv (w\<lparr> microtasks := x5 \<rparr>) = prom_inv w"
  "prom_inv (w\<lparr> next_timer := x6 \<rparr>) = prom_inv w"
  "prom_inv (w\<lparr> next_defer := x7 \<rparr>) = prom_inv w"
  "prom_inv (w\<lparr> next_gen := x8 \<rparr>) = prom_inv w"
  "prom_inv (w\<lparr> console := x9 \<rparr>) = prom_inv w"
  by (simp_all add: prom_inv_def)

lemma settle_pending:
  "pending (promise_store (settle p s w) q) \<longleftrightarrow> pending (promise_store w q) \<and> q \<noteq> p"
  by (auto simp: settle_store pending_def)

lemma prom_inv_settle: "prom_inv w \<Longrightarrow> prom_inv (settle p s w)"
  by (simp add: prom_inv_def settle_pending)

lemma prom_inv_subscribe: "prom_inv w \<Longrightarrow> prom_inv (subscribe p k w)"
  by (simp add: prom_inv_def)

lemma prom_inv_new_Promise: "prom_inv w \<Longrightarrow> prom_inv (snd (new_Promise w))"
  by (auto simp: prom_inv_def new_Promise_def less_Suc_eq)

lemma prom_inv_update_ref:
  assumes "prom_inv w"
    and "\<And>r. promise (f r) = promise r" "\<And>r. promiseActions (f r) = promiseActions r"
    and "\<And>r. complete (status (f r)) = complete (status r)"
  shows "prom_inv (update_ref a f w)"
  using assms by (simp add: prom_inv_def update_ref_nth)

lemma prom_inv_finally: "prom_inv w \<Longrightarrow> prom_inv (finally_block a w)"
  by (simp add: prom_inv_def finally_block_def update_ref_nth)

lemma prom_inv_EXECUTE_RESULT: "prom_inv w \<Longrightarrow> prom_inv (EXECUTE_RESULT a err res w)"
  by (auto simp: prom_inv_def EXECUTE_RESULT_def Let_def update_ref_nth settle_pending
      split: option.splits)

lemma prom_inv_execute: "prom_inv w \<Longrightarrow> prom_inv (execute a f args w)"
  by (simp add: execute_def prom_inv_EXECUTE_RESULT split: option.splits completion.splits)

lemma prom_inv_TASK_CANCELLED: "prom_inv w \<Longrightarrow> prom_inv (snd (TASK_CANCELLED a ps w))"
  by (auto simp: prom_inv_def TASK_CANCELLED_def Let_def update_ref_nth settle_pending
      split: option.splits)


lemma prom_inv_run_canceller: "prom_inv w \<Longrightarrow> prom_inv (run_canceller c w)"
  by (cases c) simp_all

lemma prom_inv_cancelID: "prom_inv w \<Longrightarrow> prom_inv (snd (cancelID i ps w))"
  by (simp add: cancelID_def Let_def prom_inv_TASK_CANCELLED prom_inv_run_canceller
      split: option.splits)

lemma prom_inv_fold_cancelID:
  "prom_inv w \<Longrightarrow> prom_inv (snd (fold (\<lambda>i (promises, w'). cancelID i promises w') ids (ps, w)))"
proof (induction ids arbitrary: ps w)
  case Nil
  then show ?case by simp
next
  case (Cons i ids)
  obtain ps' w' where c: "cancelID i ps w = (ps', w')" by (cases "cancelID i ps w")
  have "prom_inv w'" using prom_inv_cancelID [OF Cons.prems, of i ps] c by simp
  from Cons.IH [OF this] show ?case using c by simp
qed

lemma prom_inv_handler_cancel: "prom_inv w \<Longrightarrow> prom_inv (snd (handler_cancel ids w))"
  unfolding handler_cancel_def by (rule prom_inv_fold_cancelID)

lemma prom_inv_clear: "prom_inv w \<Longrightarrow> prom_inv (snd (clear w))"
  unfolding clear_def by (rule prom_inv_handler_cancel)

lemma prom_inv_cancel: "prom_inv w \<Longrightarrow> prom_inv (cancel a w)"
  unfolding cancel_def Let_def
  by (rule prom_inv_handler_cancel) (erule prom_inv_update_ref, simp_all)

lemma prom_inv_getNextPromise:
  "prom_inv w \<Longrightarrow> \<not> complete (status (heap w ! a)) \<Longrightarrow> prom_inv (snd (getNextPromise a w))"
  by (auto simp: prom_inv_def getNextPromise_def new_Promise_def Let_def update_ref_nth less_Suc_eq
      split: option.splits)

lemma new_Promise_heap [simp]: "heap (snd (new_Promise w)) = heap w"
  by (simp add: new_Promise_def)

lemma prom_inv_promisedResult: "prom_inv w \<Longrightarrow> prom_inv (snd (promisedResult a w))"
proof -
  assume "prom_inv w"
  then have n: "prom_inv (snd (new_Promise w))" by (rule prom_inv_new_Promise)
  obtain outer w0 where o: "new_Promise w = (outer, w0)" by (cases "new_Promise w")
  with n have w0: "prom_inv w0" by simp
  show ?thesis
  proof (cases "promise (heap w0 ! a)")
    case (Some p)
    then show ?thesis using o w0 by (simp add: promisedResult_def prom_inv_subscribe)
  next
    case None
    show ?thesis
    proof (cases "complete (status (heap w0 ! a))")
      case True
      then show ?thesis using o w0 None
        by (simp add: promisedResult_def prom_inv_settle prom_inv_finally)
    next
      case False
      obtain p w1 where g: "getNextPromise a w0 = (p, w1)" by (cases "getNextPromise a w0")
      have "prom_inv w1" using prom_inv_getNextPromise [OF w0 False] g by simp
      then show ?thesis using o None False g
        by (simp add: promisedResult_def prom_inv_subscribe)
    qed
  qed
qed

lemma prom_inv_call_promise: "prom_inv w \<Longrightarrow> prom_inv (snd (call_promise a w))"
  using prom_inv_promisedResult [of w a]
  by (simp add: call_promise_def case_prod_beta split: sum.splits)

lemma prom_inv_call_promises: "prom_inv w \<Longrightarrow> prom_inv (snd (call_promises a w))"
  by (simp add: call_promises_def prom_inv_def split: sum.splits)

lemma prom_inv_promisedResult_resume:
  "prom_inv w \<Longrightarrow> prom_inv (promisedResult_resume a outer s w)"
  by (cases s)
    (simp_all add: promisedResult_resume_def prom_inv_settle prom_inv_finally prom_inv_update_ref)

lemma finally_block_nth_complete [simp]:
  "complete (status (heap (finally_block a w) ! b)) = complete (status (heap w ! b))"
  by (simp add: finally_block_def update_ref_nth)

lemma finally_block_nth_promise:
  "a < length (heap w) \<Longrightarrow> promise (heap (finally_block a w) ! a) = None"
  by (simp add: finally_block_def update_ref_nth)

lemma prom_inv_loop: "prom_inv w \<Longrightarrow> prom_inv (promiseIterator_loop g a w)"
proof -
  assume w: "prom_inv w"
  show ?thesis
  proof (cases "complete (status (heap w ! a))")
    case True
    then show ?thesis using w
      by (simp add: promiseIterator_loop_def prom_inv_finally)
  next
    case False
    show ?thesis
    proof (cases "promise (heap w ! a)")
      case None
      obtain p w1 where g: "getNextPromise a w = (p, w1)" by (cases "getNextPromise a w")
      have "prom_inv w1" using prom_inv_getNextPromise [OF w False] g by simp
      then show ?thesis using None False g
        by (simp add: promiseIterator_loop_def prom_inv_subscribe)
    next
      case (Some p)
      then show ?thesis using False w
        by (simp add: promiseIterator_loop_def prom_inv_subscribe)
    qed
  qed
qed

lemma prom_inv_next: "prom_inv w \<Longrightarrow> prom_inv (promiseIterator_next g w)"
  by (simp add: promiseIterator_next_def prom_inv_loop prom_inv_finally
      split: option.splits gen_state.splits)

lemma prom_inv_resume: "prom_inv w \<Longrightarrow> prom_inv (promiseIterator_resume g s w)"
  by (simp add: promiseIterator_resume_def prom_inv_finally
      split: option.splits gen_state.splits settlement.splits)

lemma prom_inv_return: "prom_inv w \<Longrightarrow> prom_inv (promiseIterator_return g w)"
  by (simp add: promiseIterator_return_def prom_inv_finally
      split: option.splits gen_state.splits)

lemma prom_inv_run_cont: "prom_inv w \<Longrightarrow> prom_inv (run_cont k s w)"
  by (cases k) (simp_all add: prom_inv_promisedResult_resume prom_inv_settle prom_inv_resume)

lemma prom_inv_microtask: "prom_inv w \<Longrightarrow> prom_inv (microtask w)"
  by (simp add: microtask_def prom_inv_run_cont split: list.splits)

lemma prom_inv_fire_timer: "prom_inv w \<Longrightarrow> prom_inv (fire_timer t w)"
  by (simp add: fire_timer_def prom_inv_execute split: option.splits)

lemma prom_inv_fold_execute:
  "prom_inv w \<Longrightarrow>
   prom_inv (fold (\<lambda>e w'. execute (d_ref (snd e)) (d_fn (snd e)) (d_args (snd e)) w') es w)"
  by (induction es arbitrary: w) (simp_all add: prom_inv_execute)

lemma prom_inv_flush: "prom_inv w \<Longrightarrow> prom_inv (flush w)"
  unfolding flush_def by (rule prom_inv_fold_execute) simp

lemma prom_inv_run_call: "prom_inv w \<Longrightarrow> prom_inv (run_call a c w)"
  by (cases c) (simp_all add: resolve_def reject_def prom_inv_EXECUTE_RESULT prom_inv_cancel)

lemma prom_inv_fold_run_call: "prom_inv w \<Longrightarrow> prom_inv (fold (run_call a) cs w)"
  by (induction cs arbitrary: w) (simp_all add: prom_inv_run_call)

lemma prom_inv_alloc:
  "prom_inv w \<Longrightarrow> promise r0 = None \<Longrightarrow> promiseActions r0 = None \<Longrightarrow>
   prom_inv (w\<lparr> heap := heap w @ [r0] \<rparr>)"
  by (auto simp: prom_inv_def nth_append less_Suc_eq)

lemma prom_inv_createTaskRef: "prom_inv w \<Longrightarrow> prom_inv (snd (createTaskRef ty i jd w))"
  by (cases jd)
    (auto simp: createTaskRef_def Let_def intro!: prom_inv_alloc prom_inv_handler_cancel
      prom_inv_fold_run_call prom_inv_call_promise prom_inv_update_ref)

lemma prom_inv_init: "prom_inv (createTaskHandler b)"
  by (simp add: prom_inv_def createTaskHandler_def)

lemma prom_inv_event: "prom_inv w \<Longrightarrow> prom_inv (run_event e w)"
  by (cases e)
    (simp_all add: after_snd every_snd defer_snd everyNow_snd job_snd Let_def
      prom_inv_createTaskRef prom_inv_handler_cancel prom_inv_clear resolve_def reject_def
      prom_inv_EXECUTE_RESULT prom_inv_cancel prom_inv_call_promise prom_inv_call_promises
      prom_inv_next prom_inv_return prom_inv_fire_timer prom_inv_flush prom_inv_microtask)

lemma reachable_prom_inv: "reachable w \<Longrightarrow> prom_inv w"
  by (induction rule: reachable.induct) (simp_all add: prom_inv_init prom_inv_event)

subsection \<open>The continuation invariant holds in every reachable state\<close>








lemma cont_inv_frame [simp]:
  "cont_inv (w\<lparr> timers := x1 \<rparr>) = cont_inv w"
  "cont_inv (w\<lparr> refs := x2 \<rparr>) = cont_inv w"
  "cont_inv (w\<lparr> queue := x3 \<rparr>) = cont_inv w"
  "cont_inv (w\<lparr> next_timer := x6 \<rparr>) = cont_inv w"
  "cont_inv (w\<lparr> next_defer := x7 \<rparr>) = cont_inv w"
  "cont_inv (w\<lparr> console := x9 \<rparr>) = cont_inv w"
  by (simp_all add: cont_inv_def)











lemma finally_block_frame [simp]:
  "length (heap (finally_block a w)) = length (heap w)"
  "gens (finally_block a w) = gens w"
  "next_gen (finally_block a w) = next_gen w"
  "next_promise (finally_block a w) = next_promise w"
  "promise_store (finally_block a w) = promise_store w"
  "microtasks (finally_block a w) = microtasks w"
  by (simp_all add: finally_block_def)











lemma new_Promise_frame [simp]:
  "fst (new_Promise w) = next_promise w"
  "next_promise (snd (new_Promise w)) = Suc (next_promise w)"
  "gens (snd (new_Promise w)) = gens w"
  "next_gen (snd (new_Promise w)) = next_gen w"
  "microtasks (snd (new_Promise w)) = microtasks w"
  "refs (snd (new_Promise w)) = refs w"
  "timers (snd (new_Promise w)) = timers w"
  "queue (snd (new_Promise w)) = queue w"
  by (simp_all add: new_Promise_def)

lemma getNextPromise_frame [simp]:
  "length (heap (snd (getNextPromise a w))) = length (heap w)"
  "gens (snd (getNextPromise a w)) = gens w"
  "next_gen (snd (getNextPromise a w)) = next_gen w"
  "microtasks (snd (getNextPromise a w)) = microtasks w"
  "next_promise w \<le> next_promise (snd (getNextPromise a w))"
  by (simp_all add: getNextPromise_def Let_def case_prod_beta split: option.splits)





















section \<open>Facts for the claims\<close>

lemma prom_invD:
  assumes "prom_inv w" and "a < length (heap w)" and "promise (heap w ! a) = Some p"
  shows "promiseActions (heap w ! a) = Some p"
    and "p < next_promise w"
    and "pending (promise_store w p) \<Longrightarrow> \<not> complete (status (heap w ! a))"
  using assms unfolding prom_inv_def by auto


lemma TASK_CANCELLED_cancels:
  assumes "a < length (heap w)" and "\<not> complete (status (heap w ! a))"
  shows "cancelled (status (heap (snd (TASK_CANCELLED a ps w)) ! a))"
    and "complete (status (heap (snd (TASK_CANCELLED a ps w)) ! a))"
    and "lastResult (heap (snd (TASK_CANCELLED a ps w)) ! a) = TASK_CANCELLED_value"
  using assms by (simp_all add: TASK_CANCELLED_nth)

lemma cancelID_registered:
  "map_of (refs w) i = Some (a, c) \<Longrightarrow>
   cancelID i ps w = TASK_CANCELLED a ps ((run_canceller c w)\<lparr> refs := AList.delete i (refs w) \<rparr>)"
  by (simp add: cancelID_def Let_def)


lemma cancelID_cancels:
  assumes "map_of (refs w) i = Some (a, c)"
    and "a < length (heap w)" and "\<not> complete (status (heap w ! a))"
  shows "cancelled (status (heap (snd (cancelID i ps w)) ! a))"
    and "complete (status (heap (snd (cancelID i ps w)) ! a))"
  using assms by (simp_all add: cancelID_registered TASK_CANCELLED_cancels)

lemma reachable_registered:
  assumes "reachable w" and "a < length (heap w)" and "\<not> complete (status (heap w ! a))"
  shows "\<exists>c. map_of (refs w) (ref_id (heap w ! a)) = Some (a, c)"
  using reg_invD3 [OF reachable_reg_inv [OF assms(1)] assms(2) _ assms(3)] by simp

lemma EXECUTE_RESULT_settles:
  assumes "a < length (heap w)" and "\<not> complete (status (heap w ! a))"
    and "promiseActions (heap w ! a) = Some p" and "pending (promise_store w p)"
  shows "promise_store (EXECUTE_RESULT a err res w) p =
     Settled (if truthy err
              then Rejected (set_taskRef a (if typeof err = TObject then err else new_Error err))
              else Resolved a)"
  using assms
  by (simp add: EXECUTE_RESULT_def Let_def update_ref_nth settle_store split: option.splits)

lemma EXECUTE_RESULT_falsy:
  "\<not> truthy err \<Longrightarrow> EXECUTE_RESULT a err res w = EXECUTE_RESULT a JUndefined res w"
  by (simp add: EXECUTE_RESULT_def Let_def split: option.splits)

lemma falsy_values:
  "\<not> truthy (JNum 0)" "\<not> truthy (JStr [])" "\<not> truthy (JBool False)" "\<not> truthy JNull"
  "\<not> truthy JUndefined"
  by simp_all


lemma quieter_fold_event:
  "\<forall>e \<in> set es. \<not> cancelling e \<Longrightarrow> quieter w (fold run_event es w)"
proof (induction es arbitrary: w)
  case Nil
  then show ?case by simp
next
  case (Cons e es)
  have "quieter w (run_event e w)" using Cons.prems by (simp add: quieter_event)
  moreover have "quieter (run_event e w) (fold run_event es (run_event e w))"
    using Cons.prems by (intro Cons.IH) simp
  ultimately show ?case by (simp add: quieter_trans)
qed









lemma reachable_ex_handler: "reachable ex_handler"
  unfolding ex_handler_def by (rule reachable.init)



lemma reachable_ex_every: "reachable ex_every"
proof -
  have "reachable (run_event (Ev_every 1 10 (Some ex_five) []) ex_handler)"
    using reachable_ex_handler by (rule reachable.step) simp
  then show ?thesis by (simp add: ex_every_def)
qed

lemma reachable_ex_job: "reachable ex_job"
proof -
  have "reachable (run_event (Ev_job 2 (\<lambda>args. \<lparr> start = [], job_cancelled = None \<rparr>) []) ex_handler)"
    using reachable_ex_handler by (rule reachable.step) simp
  then show ?thesis by (simp add: ex_job_def)
qed

lemma ex_job_heap:
  "heap ex_job =
     [\<lparr> ref_id = 2, ref_type = Job,
        status = \<lparr> complete = False, error = False, cancelled = False \<rparr>,
        lastResult = Value JUndefined, promise = Some 1, promiseActions = Some 1,
        job = Some \<lparr> start = [], job_cancelled = None \<rparr> \<rparr>]"
  by (simp add: ex_job_def ex_handler_def job_task_def createTaskRef_def handler_cancel_def
      cancelID_def createTaskHandler_def call_promise_def get_promise_def promisedResult_def
      new_Promise_def getNextPromise_def subscribe_def update_ref_def Let_def)

lemma ex_job_store:
  "promise_store ex_job (Suc 0) = Pending [PromisedResult 0 0]"
  by (simp add: ex_job_def ex_handler_def job_task_def createTaskRef_def handler_cancel_def
      cancelID_def createTaskHandler_def call_promise_def get_promise_def promisedResult_def
      new_Promise_def getNextPromise_def subscribe_def update_ref_def Let_def)

lemma ex_job_pending: "pending (promise_store ex_job 1)" "pending (promise_store ex_job (Suc 0))"
  by (simp_all add: pending_def ex_job_store)


subsection \<open>Microtasks of other tasks\<close>





lemma clean_heap [simp]:
  "clean a S (update_ref b f w) = clean a S w"
  "clean a S (finally_block b w) = clean a S w"
  by (simp_all add: clean_def)


lemma finally_block_timers [simp]: "timers (finally_block a w) = timers w"
  by (simp add: finally_block_def)












lemma run_canceller_frame2 [simp]:
  "gens (run_canceller c w) = gens w"
  "next_gen (run_canceller c w) = next_gen w"
  "next_timer (run_canceller c w) = next_timer w"
  by (cases c; simp)+

lemma TASK_CANCELLED_frame2 [simp]:
  "gens (snd (TASK_CANCELLED a ps w)) = gens w"
  "next_gen (snd (TASK_CANCELLED a ps w)) = next_gen w"
  "next_timer (snd (TASK_CANCELLED a ps w)) = next_timer w"
  by (simp_all add: TASK_CANCELLED_def Let_def split: option.splits)

lemma cancelID_frame [simp]:
  "gens (snd (cancelID i ps w)) = gens w"
  "next_gen (snd (cancelID i ps w)) = next_gen w"
  "next_timer (snd (cancelID i ps w)) = next_timer w"
  "next_promise (snd (cancelID i ps w)) = next_promise w"
  by (simp_all add: cancelID_def Let_def split: option.splits)







section \<open>The claims\<close>








text \<open>
  Claim C4. For a reference of the recurring kind that is not complete, no sequence of
  events outside the cancel path (timer firings, flushes of the deferral queue,
  \<open>resolve\<close>, \<open>reject\<close>, observer steps, microtasks) sets \<open>status.complete\<close>;
  cancellation does.
\<close>

theorem recurring_completes_only_by_cancellation:
  assumes "reachable w" and "a < length (heap w)"
    and "ref_type (heap w ! a) = Every" and "\<not> complete (status (heap w ! a))"
  shows "(\<forall>es. (\<forall>e \<in> set es. \<not> cancelling e) \<longrightarrow>
              \<not> complete (status (heap (fold run_event es w) ! a))) \<and>
         complete (status (heap (snd (TASK_CANCELLED a ps w)) ! a)) \<and>
         complete (status (heap (snd (handler_cancel [ref_id (heap w ! a)] w)) ! a)) \<and>
         complete (status (heap (cancel a w) ! a))"
proof -
  have 1: "\<not> complete (status (heap (fold run_event es w) ! a))"
    if "\<forall>e \<in> set es. \<not> cancelling e" for es
    using quieter_fold_event [OF that, of w] assms(3,4) by (auto simp: quieter_def)
  obtain c where c: "map_of (refs w) (ref_id (heap w ! a)) = Some (a, c)"
    using reachable_registered [OF assms(1,2,4)] by blast
  define w1 where "w1 = update_ref a
                 (\<lambda>r. r\<lparr> lastResult := TASK_CANCELLED_value,
                        status := (status r)\<lparr> cancelled := True \<rparr> \<rparr>) w"
  have w1: "map_of (refs w1) (ref_id (heap w ! a)) = Some (a, c)" "a < length (heap w1)"
    "\<not> complete (status (heap w1 ! a))" "ref_id (heap w1 ! a) = ref_id (heap w ! a)"
    using c assms(2,4) by (simp_all add: w1_def update_ref_nth)
  have cn: "cancel a w = snd (cancelID (ref_id (heap w ! a)) [] w1)"
    using w1(4) by (simp add: cancel_def Let_def handler_cancel_single w1_def)
  show ?thesis
    using 1 TASK_CANCELLED_cancels(2) [OF assms(2,4)] cancelID_cancels(2) [OF c assms(2,4)]
      cancelID_cancels(2) [OF w1(1-3)]
    by (simp add: handler_cancel_single cn)
qed

theorem recurring_completes_only_by_cancellation_witness:
  "reachable ex_every \<and> 0 < length (heap ex_every) \<and> ref_type (heap ex_every ! 0) = Every \<and>
   \<not> complete (status (heap ex_every ! 0)) \<and>
   \<not> cancelling (Ev_timer 0 :: nat event) \<and> \<not> cancelling (Ev_resolve 0 (JNum 1) :: nat event) \<and>
   \<not> complete (status (heap (fold run_event [Ev_timer 0, Ev_resolve 0 (JNum 1), Ev_timer 0] ex_every) ! 0)) \<and>
   complete (status (heap (cancel 0 ex_every) ! 0))"
proof -
  have h1: "reachable ex_every" by (rule reachable_ex_every)
  have h2: "0 < length (heap ex_every)" by (simp add: ex_every_heap)
  have h3: "ref_type (heap ex_every ! 0) = Every" by (simp add: ex_every_heap)
  have h4: "\<not> complete (status (heap ex_every ! 0))" by (simp add: ex_every_heap)
  have h5: "\<forall>e \<in> set [Ev_timer 0, Ev_resolve 0 (JNum 1), Ev_timer 0 :: nat event]. \<not> cancelling e"
    by simp
  note t = recurring_completes_only_by_cancellation [OF h1 h2 h3 h4, of "[]"]
  from t [THEN conjunct1, THEN spec, of "[Ev_timer 0, Ev_resolve 0 (JNum 1), Ev_timer 0]"] h5
  have "\<not> complete (status (heap (fold run_event [Ev_timer 0, Ev_resolve 0 (JNum 1), Ev_timer 0] ex_every) ! 0))"
    by (rule mp)
  then show ?thesis
    using h1 h2 h3 h4 h5 t by simp
qed

text \<open>
  Claim C5. For a reference of a non-recurring kind, once \<open>status.complete\<close> is true
  every further call of the result-delivery hook, \<open>resolve\<close> and \<open>reject\<close> included, is
  a no-op. The guard of \<open>EXECUTE_RESULT\<close> does not look at the kind, so this holds for
  every reference that is complete: the whole state stays as it was, and with it the
  status, \<open>lastResult\<close> and every promise.
\<close>

theorem complete_is_terminal:
  assumes "complete (status (heap w ! a))"
  shows "EXECUTE_RESULT a err res w = w \<and> resolve a v w = w \<and> reject a e w = w \<and>
         execute a f args w = w"
  using assms
  by (simp add: EXECUTE_RESULT_def resolve_def reject_def execute_def
      split: option.splits completion.splits)

theorem complete_is_terminal_witness:
  "ref_type (heap ex_after_fired ! 0) = After \<and>
   complete (status (heap ex_after_fired ! 0)) \<and>
   resolve 0 (JNum 7) ex_after_fired = ex_after_fired \<and>
   reject 0 (JStr ''late'') ex_after_fired = ex_after_fired"
proof -
  have h: "complete (status (heap ex_after_fired ! 0))"
    by (simp add: ex_after_fired_heap)
  show ?thesis
    using h complete_is_terminal [OF h, of JUndefined JUndefined "JNum 7" "JStr ''late''" None "[]"]
    by (simp add: ex_after_fired_heap)
qed




text \<open>
  Claim C7. \<open>ref.promise()\<close> on a reference created by \<open>every\<close> or \<open>everyNow\<close>
  (type \<open>every\<close>) throws a usage error, and so does \<open>ref.promises()\<close> on a reference
  of any other type; in both cases the state after the call is the state before it.
\<close>

theorem usage_errors:
  "(ref_type (heap w ! a) = Every \<longrightarrow>
      call_promise a w = (Inl (Error_promise_iterative Every), w)) \<and>
   (ref_type (heap w ! a) \<noteq> Every \<longrightarrow>
      call_promises a w = (Inl (Error_promises_non_iterative (ref_type (heap w ! a))), w))"
  by (simp add: call_promise_def call_promises_def get_promise_def get_promises_def)

theorem usage_errors_witness:
  "ref_type (heap ex_every ! 0) = Every \<and>
   call_promise 0 ex_every = (Inl (Error_promise_iterative Every), ex_every) \<and>
   ref_type (heap ex_after ! 0) \<noteq> Every \<and>
   call_promises 0 ex_after = (Inl (Error_promises_non_iterative After), ex_after)"
  using usage_errors [of ex_every 0] usage_errors [of ex_after 0]
  by (simp add: ex_every_heap ex_after_heap)

text \<open>
  Claim C8. Calling \<open>ref.cancel()\<close> twice leaves the same state as calling it once: the
  second call changes nothing at all, so no status field flips back and no promise is
  settled again.
\<close>

theorem cancel_idempotent:
  assumes "a < length (heap w)"
  shows "cancel a (cancel a w) = cancel a w"
proof -
  define f :: "'a task_ref \<Rightarrow> 'a task_ref" where
    "f = (\<lambda>r. r\<lparr> lastResult := TASK_CANCELLED_value, status := (status r)\<lparr> cancelled := True \<rparr> \<rparr>)"
  define w1 where "w1 = update_ref a f w"
  define i where "i = ref_id (heap w ! a)"
  define w2 where "w2 = snd (cancelID i [] w1)"
  have i1: "ref_id (heap w1 ! a) = i"
    using assms by (simp add: w1_def update_ref_nth f_def i_def)
  have c1: "cancel a w = w2"
    using i1 by (simp add: cancel_def Let_def handler_cancel_single w1_def w2_def f_def)
  have "lastResult (heap w1 ! a) = TASK_CANCELLED_value" "cancelled (status (heap w1 ! a))"
    using assms by (simp_all add: w1_def update_ref_nth f_def)
  then have "lastResult (heap w2 ! a) = TASK_CANCELLED_value \<and> cancelled (status (heap w2 ! a))"
    unfolding w2_def by (rule cancelID_keeps_cancelled)
  then have "f (heap w2 ! a) = heap w2 ! a"
    by (simp add: f_def)
  then have u: "update_ref a f w2 = w2"
    by (rule update_ref_id)
  have i2: "ref_id (heap w2 ! a) = i"
    by (simp add: w2_def cancelID_ref_id i1)
  have "map_of (refs w2) i = None"
    by (simp add: w2_def cancelID_refs)
  then have "cancelID i [] w2 = ([], w2)"
    by (rule cancelID_absent)
  then have "cancel a w2 = w2"
    using u i2 by (simp add: cancel_def Let_def handler_cancel_single f_def)
  then show ?thesis
    by (simp add: c1)
qed

theorem cancel_idempotent_witness:
  "0 < length (heap ex_after) \<and> cancel 0 (cancel 0 ex_after) = cancel 0 ex_after"
proof -
  have h: "0 < length (heap ex_after)"
    by (simp add: ex_after_heap)
  show ?thesis
    using h cancel_idempotent [OF h] by simp
qed

text \<open>
  Claim C9. When a reference has completed with a normal result (\<open>status.complete\<close>
  true, \<open>status.cancelled\<close> false), a later \<open>ref.cancel()\<close> overwrites the stored result
  with the cancellation sentinel and sets \<open>status.cancelled\<close>: from then on \<open>ref.result\<close>
  is the sentinel, whatever value was produced before.
\<close>

theorem cancel_after_completion:
  assumes "a < length (heap w)"
    and "complete (status (heap w ! a))"
    and "\<not> cancelled (status (heap w ! a))"
  shows "result (heap (cancel a w) ! a) = TASK_CANCELLED_value \<and>
         cancelled (status (heap (cancel a w) ! a))"
  using assms
  by (simp add: cancel_def Let_def handler_cancel_single cancelID_nth_complete
      update_ref_nth result_def)

theorem cancel_after_completion_witness:
  "0 < length (heap ex_after_fired) \<and>
   complete (status (heap ex_after_fired ! 0)) \<and>
   \<not> cancelled (status (heap ex_after_fired ! 0)) \<and>
   result (heap ex_after_fired ! 0) = Value (JNum 5) \<and>
   result (heap (cancel 0 ex_after_fired) ! 0) = TASK_CANCELLED_value \<and>
   cancelled (status (heap (cancel 0 ex_after_fired) ! 0))"
proof -
  have h1: "0 < length (heap ex_after_fired)"
    and h2: "complete (status (heap ex_after_fired ! 0))"
    and h3: "\<not> cancelled (status (heap ex_after_fired ! 0))"
    by (simp_all add: ex_after_fired_heap)
  show ?thesis
    using h1 h2 h3 cancel_after_completion [OF h1 h2 h3]
    by (simp add: ex_after_fired_heap result_def)
qed

text \<open>
  Claim C10. For a reference with a pending promise, \<open>reject(e)\<close> with a falsy \<open>e\<close>
  fulfils the promise with the reference itself and does exactly what \<open>resolve\<close> does
  (with the result \<open>undefined\<close> that \<open>reject\<close> passes on).
\<close>

theorem falsy_reject_resolves:
  assumes "reachable w" and "a < length (heap w)"
    and "promise (heap w ! a) = Some p" and "pending (promise_store w p)"
    and "\<not> truthy e"
  shows "promise_store (reject a e w) p = Settled (Resolved a) \<and>
         reject a e w = resolve a JUndefined w"
proof -
  note pi = prom_invD [OF reachable_prom_inv [OF assms(1)] assms(2) assms(3)]
  have nc: "\<not> complete (status (heap w ! a))" using assms(4) by (rule pi(3))
  show ?thesis
    using EXECUTE_RESULT_settles [OF assms(2) nc pi(1) assms(4), of e JUndefined] assms(5)
      EXECUTE_RESULT_falsy [OF assms(5), of a JUndefined w]
    by (simp add: reject_def resolve_def)
qed

theorem falsy_reject_resolves_witness:
  "reachable ex_job \<and> 0 < length (heap ex_job) \<and> promise (heap ex_job ! 0) = Some 1 \<and>
   pending (promise_store ex_job 1) \<and> \<not> truthy (JNum 0) \<and>
   promise_store (reject 0 (JNum 0) ex_job) 1 = Settled (Resolved 0) \<and>
   reject 0 (JNum 0) ex_job = resolve 0 JUndefined ex_job"
proof -
  have h1: "reachable ex_job" by (rule reachable_ex_job)
  have h2: "0 < length (heap ex_job)" by (simp add: ex_job_heap)
  have h3: "promise (heap ex_job ! 0) = Some 1" by (simp add: ex_job_heap)
  have h4: "pending (promise_store ex_job 1)" by (rule ex_job_pending(1))
  have h5: "\<not> truthy (JNum 0)" by simp
  show ?thesis
    using h1 h2 h3 h4 h5 falsy_reject_resolves [OF h1 h2 h3 h4 h5] by (elim conjE) (intro conjI, assumption+)
qed

end
